theory Spec2Isabelle
  imports Main
begin

section \<open>The schema store (class \<open>ABI\<close>, \<open>src/chain/abi.ts\<close>)\<close>

text \<open>
  The interfaces of namespace \<open>ABI\<close> are records. Field names carry the name of their
  interface as a prefix, because \<open>name\<close> and \<open>type\<close> occur in several of them.
  Strings are lists of characters; \<open>==\<close> on two strings is equality.
\<close>

record TypeDef =
  new_type_name :: string
  typedef_type :: string

record Field =
  field_name :: string
  field_type :: string

record Struct =
  struct_name :: string
  struct_base :: string
  struct_fields :: "Field list"

record ABI_Variant =
  variant_name :: string
  variant_types :: "string list"

text \<open>
  Of the class \<open>ABI\<close> the record keeps the version and the three lists that type
  resolution reads. Type resolution does not read the lists \<open>actions\<close>, \<open>tables\<close>
  and \<open>ricardian_clauses\<close>.
\<close>

record ABI =
  version :: string
  types :: "TypeDef list"
  variants :: "ABI_Variant list"
  structs :: "Struct list"

text \<open>\<open>Array.prototype.find\<close> is \<^const>\<open>find\<close>: the first element that satisfies the test.\<close>

definition getStruct :: "ABI \<Rightarrow> string \<Rightarrow> Struct option" where
  "getStruct abi name = find (\<lambda>struct. struct_name struct = name) (structs abi)"

definition getVariant :: "ABI \<Rightarrow> string \<Rightarrow> ABI_Variant option" where
  "getVariant abi name = find (\<lambda>variant. variant_name variant = name) (variants abi)"

section \<open>The type-name grammar (class \<open>ABI.ResolvedType\<close>)\<close>

text \<open>
  A reference to an object that \<open>resolve\<close> may return or store: a \<open>ResolvedType\<close>
  allocated in the current pass, named by its address, or a member that the cache object
  inherits from \<open>Object.prototype\<close> (see \<open>getProperty\<close> below).
\<close>

datatype ref = Node nat | Inherited string

text \<open>
  The optional members \<open>fields\<close>, \<open>variant\<close> and \<open>ref\<close> are \<open>None\<close> while they are
  \<open>undefined\<close>. The member \<open>parent\<close> is declared and never assigned in this file.
\<close>

record ResolvedType =
  rt_name :: string
  rt_id :: nat
  isArray :: bool
  isOptional :: bool
  isExtension :: bool
  rt_fields :: "(string \<times> ref) list option"
  rt_variant :: "ref list option"
  rt_ref :: "ref option"

text \<open>\<open>s.endsWith(t)\<close> and \<open>s.slice(0, -k)\<close>.\<close>

definition endsWith :: "string \<Rightarrow> string \<Rightarrow> bool" where
  "endsWith s t = (length t \<le> length s \<and> drop (length s - length t) s = t)"

definition slice0 :: "string \<Rightarrow> nat \<Rightarrow> string" where
  "slice0 s k = take (length s - k) s"

text \<open>The constructor \<open>new ABI.ResolvedType(fullName, id)\<close>.\<close>

definition ResolvedType_new :: "string \<Rightarrow> nat \<Rightarrow> ResolvedType" where
  "ResolvedType_new fullName ident =
     (let name = fullName;
          ext = endsWith name ''$'';
          name = (if ext then slice0 name 1 else name);
          opt = endsWith name ''?'';
          name = (if opt then slice0 name 1 else name);
          arr = endsWith name ''[]'';
          name = (if arr then slice0 name 2 else name)
      in \<lparr>rt_name = name, rt_id = ident, isArray = arr, isOptional = opt, isExtension = ext,
          rt_fields = None, rt_variant = None, rt_ref = None\<rparr>)"

text \<open>The getter \<open>typeName\<close>.\<close>

definition typeName :: "ResolvedType \<Rightarrow> string" where
  "typeName t =
     (let rv = rt_name t;
          rv = (if isArray t then rv @ ''[]'' else rv);
          rv = (if isOptional t then rv @ ''?'' else rv);
          rv = (if isExtension t then rv @ ''$'' else rv)
      in rv)"

section \<open>The struct flattener (\<open>resolveStruct\<close>)\<close>

text \<open>
  The body of the \<open>do \<dots> while\<close> loop, entered with a struct \<open>top\<close> (here \<open>top0\<close>) that \<open>getStruct\<close>
  found. The inner \<open>for\<close> loop unshifts the fields of \<open>top\<close> from the last to the first,
  which puts them, in their declared order, in front of \<open>rv\<close>. \<open>seen\<close> is the
  \<open>Set<string>\<close>. \<open>None\<close> is the \<open>return\<close> without a value (\<open>undefined\<close>).
\<close>

function resolveStruct_loop ::
  "ABI \<Rightarrow> Field list \<Rightarrow> string set \<Rightarrow> Struct \<Rightarrow> Field list option" where
  "resolveStruct_loop abi rv seen top0 =
     (let rv = struct_fields top0 @ rv;
          seen = insert (struct_name top0) seen
      in if struct_base top0 \<in> seen then None
         else (case getStruct abi (struct_base top0) of
                 None \<Rightarrow> Some rv
               | Some top1 \<Rightarrow> resolveStruct_loop abi rv seen top1))"
  by pat_completeness auto

text \<open>
  Every round of the loop adds to \<open>seen\<close> the name of a declared struct that was not in
  it, so the declared names outside \<open>seen\<close> become fewer.
\<close>

termination resolveStruct_loop
proof (relation "measure (\<lambda>(abi, rv, seen, top0).
    card (struct_name ` set (structs abi) - insert (struct_name top0) seen))")
  show "wf (measure (\<lambda>(abi, rv, seen, top0).
    card (struct_name ` set (structs abi) - insert (struct_name top0) seen)))"
    by simp
next
  fix abi :: ABI and rv :: "Field list" and seen :: "string set" and top0 :: Struct
    and rv' :: "Field list" and seen' :: "string set" and top1 :: Struct
  assume seen': "seen' = insert (struct_name top0) seen"
    and fresh: "struct_base top0 \<notin> seen'"
    and found: "getStruct abi (struct_base top0) = Some top1"
  let ?S = "struct_name ` set (structs abi)"
  from found have nm: "struct_name top1 = struct_base top0" and mem: "struct_name top1 \<in> ?S"
    unfolding getStruct_def by (auto simp: find_Some_iff)
  have "?S - insert (struct_name top1) seen' \<subset> ?S - seen'"
    using nm mem fresh by auto
  then have "card (?S - insert (struct_name top1) seen') < card (?S - seen')"
    by (intro psubset_card_mono) auto
  then show "((abi, rv', seen', top1), (abi, rv, seen, top0))
      \<in> measure (\<lambda>(abi, rv, seen, top0).
          card (struct_name ` set (structs abi) - insert (struct_name top0) seen))"
    using seen' by simp
qed

definition resolveStruct :: "ABI \<Rightarrow> string \<Rightarrow> Field list option" where
  "resolveStruct abi name =
     (case getStruct abi name of
        None \<Rightarrow> None
      | Some top0 \<Rightarrow> resolveStruct_loop abi [] {} top0)"

section \<open>The type resolver (\<open>resolve\<close>, \<open>resolveType\<close>)\<close>

text \<open>
  A resolution pass mutates three things: the cache object \<open>types\<close>, the counter
  \<open>ctx.id\<close>, and the \<open>ResolvedType\<close> objects it has allocated. The objects live in a
  store, \<open>heap\<close>; the address of an object is its position there, and a \<^const>\<open>Node\<close>
  reference names the address, so that a node can be reached from several places and
  filled in after it was registered.
\<close>

record pass =
  cache :: "string \<rightharpoonup> ref"
  ctx_id :: nat
  heap :: "ResolvedType list"

text \<open>
  \<open>types\<close> is created by the object literal \<open>{}\<close>, so \<open>types[name]\<close> finds the own
  property \<open>name\<close> if there is one, and otherwise the member of that name that every
  such object inherits from \<open>Object.prototype\<close>. These members are functions, or the
  prototype object itself for \<open>__proto__\<close>: all of them pass the test \<open>if (existing)\<close>,
  as every \<open>ResolvedType\<close> object does.
\<close>

definition objectPrototype :: "string list" where
  "objectPrototype =
     [''constructor'', ''__defineGetter__'', ''__defineSetter__'', ''hasOwnProperty'',
      ''__lookupGetter__'', ''__lookupSetter__'', ''isPrototypeOf'', ''propertyIsEnumerable'',
      ''toString'', ''valueOf'', ''__proto__'', ''toLocaleString'']"

definition getProperty :: "(string \<rightharpoonup> ref) \<Rightarrow> string \<Rightarrow> ref option" where
  "getProperty obj name =
     (case obj name of
        Some existing \<Rightarrow> Some existing
      | None \<Rightarrow> if name \<in> set objectPrototype then Some (Inherited name) else None)"

text \<open>The three assignments \<open>type.ref = \<dots>\<close>, \<open>type.fields = \<dots>\<close>, \<open>type.variant = \<dots>\<close>
  to the object at address \<open>a\<close>.\<close>

definition setRef :: "nat \<Rightarrow> ref \<Rightarrow> pass \<Rightarrow> pass" where
  "setRef a r st = st\<lparr>heap := (heap st)[a := (heap st ! a)\<lparr>rt_ref := Some r\<rparr>]\<rparr>"

definition setFields :: "nat \<Rightarrow> (string \<times> ref) list \<Rightarrow> pass \<Rightarrow> pass" where
  "setFields a fs st = st\<lparr>heap := (heap st)[a := (heap st ! a)\<lparr>rt_fields := Some fs\<rparr>]\<rparr>"

definition setVariant :: "nat \<Rightarrow> ref list \<Rightarrow> pass \<Rightarrow> pass" where
  "setVariant a rs st = st\<lparr>heap := (heap st)[a := (heap st ! a)\<lparr>rt_variant := Some rs\<rparr>]\<rparr>"

text \<open>
  \<open>new ABI.ResolvedType(name, ++ctx.id)\<close> followed by \<open>types[type.typeName] = type\<close>:
  the counter is incremented, the new object is put at the next free address and the
  cache gets an own property for it.
\<close>

definition register :: "string \<Rightarrow> pass \<Rightarrow> pass" where
  "register name st =
     (let ty = ResolvedType_new name (Suc (ctx_id st))
      in \<lparr>cache = (cache st)(typeName ty \<mapsto> Node (length (heap st))),
          ctx_id = Suc (ctx_id st),
          heap = heap st @ [ty]\<rparr>)"

text \<open>
  \<open>resolve\<close> calls itself, directly and inside the two \<open>map\<close> calls. The first argument
  bounds the depth of these nested calls: \<open>resolve 0\<close> gives up with \<open>None\<close>, and a call
  with budget \<open>Suc n\<close> gives budget \<open>n\<close> to the calls it makes. \<open>resolve_each\<close> is
  \<open>names.map((name) => this.resolve({name, types}, ctx))\<close>, left to right. The source
  raises no exception, so \<open>None\<close> means only that the budget ran out.
\<close>

fun resolve :: "nat \<Rightarrow> ABI \<Rightarrow> string \<Rightarrow> pass \<Rightarrow> (ref \<times> pass) option"
  and resolve_each :: "nat \<Rightarrow> ABI \<Rightarrow> string list \<Rightarrow> pass \<Rightarrow> (ref list \<times> pass) option"
where
  "resolve 0 abi name st = None"
| "resolve (Suc n) abi name st =
     (case getProperty (cache st) name of
        Some existing \<Rightarrow> Some (existing, st)
      | None \<Rightarrow>
          (let a = length (heap st);
               tname = rt_name (ResolvedType_new name (Suc (ctx_id st)));
               st = register name st
           in case find (\<lambda>typeDef. new_type_name typeDef = tname) (types abi) of
                Some alias \<Rightarrow>
                  (case resolve n abi (typedef_type alias) st of
                     None \<Rightarrow> None
                   | Some (r, st) \<Rightarrow> Some (Node a, setRef a r st))
              | None \<Rightarrow>
                  (case resolveStruct abi tname of
                     Some fields' \<Rightarrow>
                       (case resolve_each n abi (map field_type fields') st of
                          None \<Rightarrow> None
                        | Some (rs, st) \<Rightarrow>
                            Some (Node a, setFields a (zip (map field_name fields') rs) st))
                   | None \<Rightarrow>
                       (case getVariant abi tname of
                          Some variant \<Rightarrow>
                            (case resolve_each n abi (variant_types variant) st of
                               None \<Rightarrow> None
                             | Some (rs, st) \<Rightarrow> Some (Node a, setVariant a rs st))
                        | None \<Rightarrow> Some (Node a, st)))))"
| "resolve_each n abi [] st = Some ([], st)"
| "resolve_each n abi (name # names) st =
     (case resolve n abi name st of
        None \<Rightarrow> None
      | Some (r, st) \<Rightarrow>
          (case resolve_each n abi names st of
             None \<Rightarrow> None
           | Some (rs, st) \<Rightarrow> Some (r # rs, st)))"

text \<open>
  Every name that \<open>resolve\<close> can be called with during a pass is the name the pass was
  started with or one that the schema mentions as the target of an alias, the type of a
  field or an alternative of a variant.
\<close>

definition schemaNames :: "ABI \<Rightarrow> string list" where
  "schemaNames abi =
     map typedef_type (types abi)
     @ concat (map (\<lambda>s. map field_type (struct_fields s)) (structs abi))
     @ concat (map variant_types (variants abi))"

definition depthBound :: "ABI \<Rightarrow> string \<Rightarrow> nat" where
  "depthBound abi name = Suc (length (remdups (name # schemaNames abi)))"

text \<open>\<open>resolveType\<close> starts a pass with an empty cache and the counter at 0. It returns
  the reference that \<open>resolve\<close> returns, together with the objects of the pass.\<close>

definition newPass :: pass where
  "newPass = \<lparr>cache = Map.empty, ctx_id = 0, heap = []\<rparr>"

definition resolveType :: "ABI \<Rightarrow> string \<Rightarrow> (ref \<times> pass) option" where
  "resolveType abi name = resolve (depthBound abi name) abi name newPass"

text \<open>Reading a member of the object that a reference names. An inherited member of
  \<open>Object.prototype\<close> has no property \<open>fields\<close>, \<open>variant\<close> or \<open>ref\<close>.\<close>

definition deref :: "pass \<Rightarrow> ref \<Rightarrow> ResolvedType option" where
  "deref st r = (case r of Node a \<Rightarrow> (if a < length (heap st) then Some (heap st ! a) else None)
                         | Inherited _ \<Rightarrow> None)"

section \<open>The variant value (class \<open>Variant\<close>)\<close>

text \<open>
  The class is used through subclasses that carry the static list \<open>abiVariant\<close> of type
  descriptors. The descriptors and the function \<open>abiTypeString\<close>, which renders one as
  its type name, come from \<open>serializer/serializable\<close>; here they are the parameters
  \<open>abiVariant\<close> and \<open>abiTypeString\<close> of every operation.
\<close>

record 'v Variant =
  variantValue :: 'v
  variantIdx :: int

datatype error = Error string

text \<open>\<open>Array.prototype.findIndex\<close>: the position of the first element that satisfies the
  test, or \<open>-1\<close>.\<close>

fun findIndex :: "('a \<Rightarrow> bool) \<Rightarrow> 'a list \<Rightarrow> int" where
  "findIndex p [] = - 1"
| "findIndex p (x # xs) =
     (if p x then 0 else (let i = findIndex p xs in if i < 0 then - 1 else i + 1))"

text \<open>The constructor \<open>new Variant([tag, value])\<close>; \<open>Inl\<close> is the \<open>throw\<close>.\<close>

definition Variant_new ::
  "('d \<Rightarrow> string) \<Rightarrow> 'd list \<Rightarrow> string \<times> 'v \<Rightarrow> error + 'v Variant" where
  "Variant_new abiTypeString abiVariant variant =
     (let idx = findIndex (\<lambda>t. t = fst variant) (map abiTypeString abiVariant)
      in if 0 > idx \<or> int (length abiVariant) \<le> idx
         then Inl (Error (''Unknown variant '' @ fst variant))
         else Inr \<lparr>variantValue = snd variant, variantIdx = idx\<rparr>)"

text \<open>
  The getter \<open>variantName\<close>. \<open>abiVariant[this.variantIdx]\<close> is \<open>undefined\<close> when the index
  is not a position of the list; what \<open>abiTypeString\<close> does with \<open>undefined\<close> is not
  decided in this file, and the model answers \<open>None\<close> there.
\<close>

definition variantName :: "('d \<Rightarrow> string) \<Rightarrow> 'd list \<Rightarrow> 'v Variant \<Rightarrow> string option" where
  "variantName abiTypeString abiVariant v =
     (if 0 \<le> variantIdx v \<and> variantIdx v < int (length abiVariant)
      then Some (abiTypeString (abiVariant ! nat (variantIdx v)))
      else None)"

text \<open>\<open>toJSON\<close> returns the array \<open>[this.variantName, this.value]\<close>.\<close>

datatype 'v json = JString string | JValue 'v

definition toJSON :: "('d \<Rightarrow> string) \<Rightarrow> 'd list \<Rightarrow> 'v Variant \<Rightarrow> 'v json list option" where
  "toJSON abiTypeString abiVariant v =
     (case variantName abiTypeString abiVariant v of
        None \<Rightarrow> None
      | Some n \<Rightarrow> Some [JString n, JValue (variantValue v)])"

section \<open>Base chains, as the specification describes them\<close>

text \<open>
  \<open>baseChain abi name ss\<close>: following the \<open>base\<close> names from \<open>name\<close> one finds the structs
  \<open>ss\<close>, most derived first, and then a name under which no struct is declared. This is
  a base chain that ends, an acyclic one.
\<close>

fun baseChain :: "ABI \<Rightarrow> string \<Rightarrow> Struct list \<Rightarrow> bool" where
  "baseChain abi name [] = (getStruct abi name = None)"
| "baseChain abi name (s # ss) = (getStruct abi name = Some s \<and> baseChain abi (struct_base s) ss)"

text \<open>
  \<open>baseWalk abi name ss\<close>: following the \<open>base\<close> names from \<open>name\<close> one finds the structs
  \<open>ss\<close>, with no word on what comes after them. The walk \<open>revisits\<close> a name when the base
  of its last struct is the name of a struct of the walk.
\<close>

fun baseWalk :: "ABI \<Rightarrow> string \<Rightarrow> Struct list \<Rightarrow> bool" where
  "baseWalk abi name [] = True"
| "baseWalk abi name (s # ss) = (getStruct abi name = Some s \<and> baseWalk abi (struct_base s) ss)"

definition revisits :: "ABI \<Rightarrow> string \<Rightarrow> Struct list \<Rightarrow> bool" where
  "revisits abi name ss =
     (ss \<noteq> [] \<and> baseWalk abi name ss \<and> struct_base (last ss) \<in> struct_name ` set ss)"

definition declaredFields :: "ABI \<Rightarrow> Field set" where
  "declaredFields abi = (\<Union>s \<in> set (structs abi). set (struct_fields s))"

section \<open>The suffix grammar, as the specification describes it\<close>

text \<open>Stripping the marker \<open>t\<close> from the end of \<open>s\<close>, if it is there.\<close>

definition stripSuffix :: "string \<Rightarrow> string \<Rightarrow> string" where
  "stripSuffix t s = (if endsWith s t then take (length s - length t) s else s)"

section \<open>Notions used to state and prove the properties of the resolver\<close>

text \<open>The base name that the constructor computes does not depend on the id.\<close>

definition baseName :: "string \<Rightarrow> string" where
  "baseName s = rt_name (ResolvedType_new s 0)"

text \<open>Replacing the object at address \<open>a\<close> by \<open>f\<close> of it: the common form of the three
  assignments \<open>setRef\<close>, \<open>setFields\<close> and \<open>setVariant\<close>.\<close>

definition modify :: "nat \<Rightarrow> (ResolvedType \<Rightarrow> ResolvedType) \<Rightarrow> pass \<Rightarrow> pass" where
  "modify a f st = st\<lparr>heap := (heap st)[a := f (heap st ! a)]\<rparr>"

text \<open>
  What \<open>resolve\<close> does for a new node with base name \<open>tname\<close>, in one table: the names it
  resolves, and the assignment it makes with the references it gets for them. The lemma
  \<open>resolve_miss\<close> shows that this is what the four branches of \<open>resolve\<close> do.
\<close>

definition populate ::
  "ABI \<Rightarrow> string \<Rightarrow> string list \<times> (ref list \<Rightarrow> ResolvedType \<Rightarrow> ResolvedType)" where
  "populate abi tname =
     (case find (\<lambda>typeDef. new_type_name typeDef = tname) (types abi) of
        Some alias \<Rightarrow> ([typedef_type alias], \<lambda>rs t. t\<lparr>rt_ref := Some (hd rs)\<rparr>)
      | None \<Rightarrow>
          (case resolveStruct abi tname of
             Some fields' \<Rightarrow>
               (map field_type fields',
                \<lambda>rs t. t\<lparr>rt_fields := Some (zip (map field_name fields') rs)\<rparr>)
           | None \<Rightarrow>
               (case getVariant abi tname of
                  Some variant \<Rightarrow> (variant_types variant, \<lambda>rs t. t\<lparr>rt_variant := Some rs\<rparr>)
                | None \<Rightarrow> ([], \<lambda>rs t. t))))"

text \<open>
  A pass is \<open>consistent\<close> when the counter is the number of objects, the object at
  address \<open>a\<close> has the id \<open>a + 1\<close>, every own property of the cache refers to an object
  whose \<open>typeName\<close> is the property's key, and no name that \<open>Object.prototype\<close> defines
  is an own property.
\<close>

definition consistent :: "pass \<Rightarrow> bool" where
  "consistent st \<longleftrightarrow>
     ctx_id st = length (heap st)
     \<and> (\<forall>a < length (heap st). rt_id (heap st ! a) = Suc a)
     \<and> (\<forall>k r. cache st k = Some r \<longrightarrow>
           (\<exists>a < length (heap st). r = Node a \<and> typeName (heap st ! a) = k))
     \<and> (\<forall>k \<in> set objectPrototype. cache st k = None)"

text \<open>\<open>st'\<close> \<open>extends\<close> \<open>st\<close>: the objects of \<open>st\<close> are unchanged in \<open>st'\<close>, new ones follow
  them, and the cache has kept its entries.\<close>

definition extends :: "pass \<Rightarrow> pass \<Rightarrow> bool" where
  "extends st st' \<longleftrightarrow> (\<exists>ext. heap st' = heap st @ ext) \<and> cache st \<subseteq>\<^sub>m cache st'"

text \<open>
  A node is \<open>complete\<close> when it has the slot that its base name calls for and no other:
  \<open>ref\<close> if an alias has the name; otherwise \<open>fields\<close>, one per flattened field, if
  \<open>resolveStruct\<close> finds fields; otherwise \<open>variant\<close>, one reference per alternative, if a
  variant has the name; otherwise none.
\<close>

definition complete :: "ABI \<Rightarrow> ResolvedType \<Rightarrow> bool" where
  "complete abi t =
     (case find (\<lambda>typeDef. new_type_name typeDef = rt_name t) (types abi) of
        Some alias \<Rightarrow> rt_ref t \<noteq> None \<and> rt_fields t = None \<and> rt_variant t = None
      | None \<Rightarrow>
          (case resolveStruct abi (rt_name t) of
             Some fields' \<Rightarrow>
               rt_ref t = None \<and> rt_variant t = None
               \<and> (case rt_fields t of
                     None \<Rightarrow> False
                   | Some fs \<Rightarrow> map fst fs = map field_name fields')
           | None \<Rightarrow>
               (case getVariant abi (rt_name t) of
                  Some variant \<Rightarrow>
                    rt_ref t = None \<and> rt_fields t = None
                    \<and> (case rt_variant t of
                          None \<Rightarrow> False
                        | Some rs \<Rightarrow> length rs = length (variant_types variant))
                | None \<Rightarrow> rt_ref t = None \<and> rt_fields t = None \<and> rt_variant t = None)))"

text \<open>
  The reference \<open>r\<close> \<open>answers\<close> the name: it is the node that the cache holds under the
  name, and the \<open>typeName\<close> of that node is the name; or the name is one that
  \<open>Object.prototype\<close> defines and \<open>r\<close> is that inherited member.
\<close>

definition answers :: "pass \<Rightarrow> string \<Rightarrow> ref \<Rightarrow> bool" where
  "answers st name r =
     (case r of
        Node a \<Rightarrow> a < length (heap st) \<and> typeName (heap st ! a) = name
                   \<and> cache st name = Some (Node a)
      | Inherited k \<Rightarrow> k = name \<and> name \<in> set objectPrototype)"

text \<open>The names that \<open>resolve\<close> resolves for a node: the target of the alias, the types
  of the flattened fields, or the alternatives of the variant that its base name
  denotes.\<close>

definition childNames :: "ABI \<Rightarrow> ResolvedType \<Rightarrow> string list" where
  "childNames abi t = fst (populate abi (rt_name t))"

text \<open>A pass is \<open>indexed\<close> when every node is the cache entry of its own \<open>typeName\<close>. A
  node is \<open>linked\<close> when each of its child names is an own property of the cache, unless
  it is a name that \<open>Object.prototype\<close> defines.\<close>

definition indexed :: "pass \<Rightarrow> bool" where
  "indexed st \<longleftrightarrow> (\<forall>a < length (heap st). cache st (typeName (heap st ! a)) = Some (Node a))"

definition linked :: "ABI \<Rightarrow> pass \<Rightarrow> ResolvedType \<Rightarrow> bool" where
  "linked abi st t =
     list_all (\<lambda>c. c \<in> set objectPrototype \<or> cache st c \<noteq> None) (childNames abi t)"

text \<open>The node that a pass returns, if it returns a node.\<close>

definition rootNode :: "(ref \<times> pass) option \<Rightarrow> ResolvedType option" where
  "rootNode res = (case res of None \<Rightarrow> None | Some (r, st) \<Rightarrow> deref st r)"

text \<open>An alias \<open>link\<close> for the struct \<open>node\<close>, whose fields refer back to \<open>link\<close> and to the
  variant \<open>v\<close>, which in turn refers to \<open>node\<close>: a schema with cycles.\<close>

definition exampleGraph :: ABI where
  "exampleGraph = \<lparr>version = ''eosio::abi/1.1'',
     types = [\<lparr>new_type_name = ''link'', typedef_type = ''node''\<rparr>],
     variants = [\<lparr>variant_name = ''v'', variant_types = [''int8'', ''node'']\<rparr>],
     structs = [\<lparr>struct_name = ''node'', struct_base = '''',
                 struct_fields = [\<lparr>field_name = ''next'', field_type = ''link''\<rparr>,
                                  \<lparr>field_name = ''alt'', field_type = ''v''\<rparr>]\<rparr>]\<rparr>"


text \<open>How many of \<open>fields\<close>, \<open>variant\<close> and \<open>ref\<close> a node has.\<close>

definition populatedSlots :: "ResolvedType \<Rightarrow> nat" where
  "populatedSlots t =
     (if rt_fields t = None then 0 else 1) + (if rt_variant t = None then 0 else 1)
     + (if rt_ref t = None then 0 else 1)"

text \<open>\<open>new ABI({})\<close>: every list defaults to the empty list.\<close>

definition emptyABI :: ABI where
  "emptyABI = \<lparr>version = ''eosio::abi/1.1'', types = [], variants = [], structs = []\<rparr>"

text \<open>A struct that is its own base, and two structs that are each other's base.\<close>

definition exampleSelf :: ABI where
  "exampleSelf = \<lparr>version = ''eosio::abi/1.1'', types = [], variants = [],
     structs = [\<lparr>struct_name = ''A'', struct_base = ''A'',
                 struct_fields = [\<lparr>field_name = ''a0'', field_type = ''int8''\<rparr>]\<rparr>]\<rparr>"

definition exampleMutual :: ABI where
  "exampleMutual = \<lparr>version = ''eosio::abi/1.1'', types = [], variants = [],
     structs = [\<lparr>struct_name = ''A'', struct_base = ''B'',
                 struct_fields = [\<lparr>field_name = ''a0'', field_type = ''int8''\<rparr>]\<rparr>,
                \<lparr>struct_name = ''B'', struct_base = ''A'',
                 struct_fields = [\<lparr>field_name = ''b0'', field_type = ''int8''\<rparr>]\<rparr>]\<rparr>"

text \<open>A struct that is its own base, and a variant of the same name.\<close>

definition exampleSelfVariant :: ABI where
  "exampleSelfVariant = \<lparr>version = ''eosio::abi/1.1'', types = [],
     variants = [\<lparr>variant_name = ''A'', variant_types = [''int8'']\<rparr>],
     structs = [\<lparr>struct_name = ''A'', struct_base = ''A'', struct_fields = []\<rparr>]\<rparr>"

text \<open>A struct whose fields have the types \<open>foo\<close> and \<open>foo[]\<close>.\<close>

definition exampleSuffixes :: ABI where
  "exampleSuffixes = \<lparr>version = ''eosio::abi/1.1'', types = [], variants = [],
     structs = [\<lparr>struct_name = ''pair'', struct_base = '''',
                 struct_fields = [\<lparr>field_name = ''one'', field_type = ''foo''\<rparr>,
                                  \<lparr>field_name = ''many'', field_type = ''foo[]''\<rparr>]\<rparr>]\<rparr>"


text \<open>A struct whose name, \<open>toString\<close>, is the name of a member of \<open>Object.prototype\<close>.\<close>

definition exampleToString :: ABI where
  "exampleToString = \<lparr>version = ''eosio::abi/1.1'', types = [], variants = [],
     structs = [\<lparr>struct_name = ''toString'', struct_base = '''',
                 struct_fields = [\<lparr>field_name = ''x'', field_type = ''int8''\<rparr>]\<rparr>]\<rparr>"

section \<open>Schemas used as examples\<close>

text \<open>A struct \<open>D\<close> with one field and the base \<open>B\<close>, which has two fields and no base.\<close>

definition exampleDB :: ABI where
  "exampleDB = \<lparr>version = ''eosio::abi/1.1'', types = [], variants = [],
     structs = [\<lparr>struct_name = ''D'', struct_base = ''B'',
                 struct_fields = [\<lparr>field_name = ''d0'', field_type = ''string''\<rparr>]\<rparr>,
                \<lparr>struct_name = ''B'', struct_base = '''',
                 struct_fields = [\<lparr>field_name = ''b0'', field_type = ''int8''\<rparr>,
                                  \<lparr>field_name = ''b1'', field_type = ''int8[]''\<rparr>]\<rparr>]\<rparr>"

section \<open>Facts about the type-name grammar\<close>

lemma endsWith_append: "endsWith s t \<Longrightarrow> slice0 s (length t) @ t = s"
  unfolding endsWith_def slice0_def
  by (metis append_take_drop_id)

lemma endsWith_append1: "endsWith s [c] \<Longrightarrow> slice0 s 1 @ [c] = s"
  using endsWith_append [of s "[c]"] by simp

lemma endsWith_append2: "endsWith s [c, d] \<Longrightarrow> slice0 s 2 @ [c, d] = s"
  using endsWith_append [of s "[c, d]"] by (simp add: numeral_2_eq_2)

text \<open>Rendering after parsing gives the string back, whatever the string is.\<close>

lemma typeName_new: "typeName (ResolvedType_new s i) = s"
proof -
  define s1 where "s1 = (if endsWith s ''$'' then slice0 s 1 else s)"
  define s2 where "s2 = (if endsWith s1 ''?'' then slice0 s1 1 else s1)"
  define s3 where "s3 = (if endsWith s2 ''[]'' then slice0 s2 2 else s2)"
  have e1: "(if endsWith s ''$'' then s1 @ ''$'' else s1) = s"
    unfolding s1_def using endsWith_append1 [of s "CHR ''$''"] by simp
  have e2: "(if endsWith s1 ''?'' then s2 @ ''?'' else s2) = s1"
    unfolding s2_def using endsWith_append1 [of s1 "CHR ''?''"] by simp
  have e3: "(if endsWith s2 ''[]'' then s3 @ ''[]'' else s3) = s2"
    unfolding s3_def using endsWith_append2 [of s2 "CHR ''[''" "CHR '']''"] by simp
  have "typeName (ResolvedType_new s i) =
      (let rv = (if endsWith s2 ''[]'' then s3 @ ''[]'' else s3);
           rv = (if endsWith s1 ''?'' then rv @ ''?'' else rv)
       in (if endsWith s ''$'' then rv @ ''$'' else rv))"
    unfolding typeName_def ResolvedType_new_def s1_def s2_def s3_def
    by (simp add: Let_def)
  also have "\<dots> = s"
    unfolding Let_def e3 e2 e1 ..
  finally show ?thesis .
qed

lemma grammar_order:
  "isExtension (ResolvedType_new s i) = endsWith s ''$''"
  "isOptional (ResolvedType_new s i) = endsWith (stripSuffix ''$'' s) ''?''"
  "isArray (ResolvedType_new s i) = endsWith (stripSuffix ''?'' (stripSuffix ''$'' s)) ''[]''"
  "rt_name (ResolvedType_new s i) = stripSuffix ''[]'' (stripSuffix ''?'' (stripSuffix ''$'' s))"
  by (simp_all add: ResolvedType_new_def stripSuffix_def slice0_def Let_def numeral_2_eq_2)

lemma endsWith_append_ge:
  "length t \<le> length ys \<Longrightarrow> endsWith (x @ ys) t \<longleftrightarrow> endsWith ys t"
  by (simp add: endsWith_def)

lemma slice0_append: "k \<le> length ys \<Longrightarrow> slice0 (x @ ys) k = x @ slice0 ys k"
  by (simp add: slice0_def)

lemma new_canonical:
  assumes "\<not> endsWith b ''$''" "\<not> endsWith b ''?''" "\<not> endsWith b ''[]''"
  shows "ResolvedType_new (b @ (if arr then ''[]'' else []) @ (if opt then ''?'' else [])
            @ (if ext then ''$'' else [])) i
         = \<lparr>rt_name = b, rt_id = i, isArray = arr, isOptional = opt, isExtension = ext,
            rt_fields = None, rt_variant = None, rt_ref = None\<rparr>"
proof -
  have lit: "endsWith ys t = (length t \<le> length ys \<and> drop (length ys - length t) ys = t)"
    for ys t by (simp add: endsWith_def)
  show ?thesis
    using assms
    by (cases arr; cases opt; cases ext)
       (simp_all add: ResolvedType_new_def Let_def endsWith_append_ge slice0_append
          slice0_def [of "_ # _"] lit [of "_ # _"])
qed

section \<open>Facts about the struct flattener\<close>

lemma getStruct_Some: "getStruct abi name = Some s \<Longrightarrow> struct_name s = name \<and> s \<in> set (structs abi)"
  unfolding getStruct_def by (auto simp: find_Some_iff)

declare resolveStruct_loop.simps [simp del]

lemma baseChain_unique: "baseChain abi name ss \<Longrightarrow> baseChain abi name ss' \<Longrightarrow> ss = ss'"
proof (induction ss arbitrary: name ss')
  case Nil
  then show ?case by (cases ss') auto
next
  case (Cons s ss)
  then show ?case by (cases ss') auto
qed

lemma loop_acyclic:
  "baseChain abi (struct_base top0) rest \<Longrightarrow>
   (\<forall>n \<in> insert (struct_name top0) seen. \<forall>ss. baseChain abi n ss \<longrightarrow> length rest < length ss) \<Longrightarrow>
   resolveStruct_loop abi rv seen top0 =
     Some (concat (map struct_fields (rev rest)) @ struct_fields top0 @ rv)"
proof (induction rest arbitrary: rv seen top0)
  case Nil
  have "struct_base top0 \<notin> insert (struct_name top0) seen"
  proof
    assume "struct_base top0 \<in> insert (struct_name top0) seen"
    with Nil.prems show False by fastforce
  qed
  with Nil.prems(1) show ?case
    by (simp add: resolveStruct_loop.simps [of abi rv seen top0])
next
  case (Cons top1 rest)
  let ?seen = "insert (struct_name top0) seen"
  from Cons.prems(1) have found: "getStruct abi (struct_base top0) = Some top1"
    and chain: "baseChain abi (struct_base top1) rest" by auto
  from found have nm: "struct_name top1 = struct_base top0"
    by (simp add: getStruct_Some)
  have fresh: "struct_base top0 \<notin> ?seen"
  proof
    assume "struct_base top0 \<in> ?seen"
    with Cons.prems show False by fastforce
  qed
  have inv: "\<forall>n \<in> insert (struct_name top1) ?seen. \<forall>ss. baseChain abi n ss \<longrightarrow> length rest < length ss"
  proof (intro ballI allI impI)
    fix n ss assume n: "n \<in> insert (struct_name top1) ?seen" and ss: "baseChain abi n ss"
    show "length rest < length ss"
    proof (cases "n = struct_name top1")
      case True
      with ss nm Cons.prems(1) have "ss = top1 # rest"
        using baseChain_unique by metis
      then show ?thesis by simp
    next
      case False
      with n have "n \<in> ?seen" by simp
      with Cons.prems(2) ss have "length (top1 # rest) < length ss" by blast
      then show ?thesis by simp
    qed
  qed
  have "resolveStruct_loop abi rv seen top0 =
      resolveStruct_loop abi (struct_fields top0 @ rv) ?seen top1"
    using fresh found by (simp add: resolveStruct_loop.simps [of abi rv seen top0])
  also have "\<dots> = Some (concat (map struct_fields (rev rest)) @ struct_fields top1
      @ struct_fields top0 @ rv)"
    using Cons.IH [OF chain inv] .
  finally show ?case by simp
qed

lemma loop_cyclic:
  "baseWalk abi (struct_base top0) rest \<Longrightarrow>
   struct_base (last (top0 # rest)) \<in> struct_name ` set (top0 # rest) \<union> seen \<Longrightarrow>
   resolveStruct_loop abi rv seen top0 = None"
proof (induction rest arbitrary: rv seen top0)
  case Nil
  then show ?case by (simp add: resolveStruct_loop.simps [of abi rv seen top0])
next
  case (Cons top1 rest)
  let ?seen = "insert (struct_name top0) seen"
  from Cons.prems(1) have found: "getStruct abi (struct_base top0) = Some top1"
    and walk: "baseWalk abi (struct_base top1) rest" by auto
  from Cons.prems(2) have cyc: "struct_base (last (top1 # rest)) \<in> struct_name ` set (top1 # rest) \<union> ?seen"
    by auto
  show ?case
  proof (cases "struct_base top0 \<in> ?seen")
    case True
    then show ?thesis by (simp add: resolveStruct_loop.simps [of abi rv seen top0])
  next
    case False
    then have "resolveStruct_loop abi rv seen top0 =
        resolveStruct_loop abi (struct_fields top0 @ rv) ?seen top1"
      using found by (simp add: resolveStruct_loop.simps [of abi rv seen top0])
    with Cons.IH [OF walk cyc] show ?thesis by simp
  qed
qed

lemma resolveStruct_cyclic: "revisits abi name ss \<Longrightarrow> resolveStruct abi name = None"
proof -
  assume r: "revisits abi name ss"
  then obtain s rest where ss: "ss = s # rest" by (cases ss) (auto simp: revisits_def)
  from r ss have found: "getStruct abi name = Some s" and walk: "baseWalk abi (struct_base s) rest"
    and cyc: "struct_base (last (s # rest)) \<in> struct_name ` set (s # rest) \<union> {}"
    by (auto simp: revisits_def)
  show ?thesis using found loop_cyclic [OF walk cyc, of "[]"] by (simp add: resolveStruct_def)
qed

lemma resolveStruct_missing: "getStruct abi name = None \<Longrightarrow> resolveStruct abi name = None"
  by (simp add: resolveStruct_def)

lemma loop_fields:
  "resolveStruct_loop abi rv seen top0 = Some fs \<Longrightarrow> top0 \<in> set (structs abi) \<Longrightarrow>
   set rv \<subseteq> declaredFields abi \<Longrightarrow> set fs \<subseteq> declaredFields abi"
proof (induction abi rv seen top0 rule: resolveStruct_loop.induct)
  case (1 abi rv seen top0)
  let ?rv = "struct_fields top0 @ rv" and ?seen = "insert (struct_name top0) seen"
  from "1.prems"(2,3) have rv: "set ?rv \<subseteq> declaredFields abi"
    by (auto simp: declaredFields_def)
  from "1.prems"(1) have fresh: "struct_base top0 \<notin> ?seen"
    by (auto simp: resolveStruct_loop.simps [of abi rv seen top0] Let_def split: if_splits)
  show ?case
  proof (cases "getStruct abi (struct_base top0)")
    case None
    with "1.prems"(1) fresh have "fs = ?rv"
      by (simp add: resolveStruct_loop.simps [of abi rv seen top0])
    with rv show ?thesis by simp
  next
    case (Some top1)
    with "1.prems"(1) fresh have "resolveStruct_loop abi ?rv ?seen top1 = Some fs"
      by (simp add: resolveStruct_loop.simps [of abi rv seen top0])
    moreover from Some have "top1 \<in> set (structs abi)" by (simp add: getStruct_Some)
    ultimately show ?thesis
      using "1.IH" [OF refl refl fresh Some] rv by blast
  qed
qed

lemma resolveStruct_fields:
  "resolveStruct abi name = Some fs \<Longrightarrow> set fs \<subseteq> declaredFields abi"
  unfolding resolveStruct_def
  by (auto split: option.splits dest!: getStruct_Some intro: loop_fields [THEN subsetD])



section \<open>Facts about the resolver\<close>

lemma rt_name_new: "rt_name (ResolvedType_new s i) = baseName s"
  by (simp add: baseName_def ResolvedType_new_def Let_def)

lemmas resolve_Suc_def = resolve.simps(2)
declare resolve.simps(2) [simp del]

lemma resolve_hit:
  "getProperty (cache st) name = Some r \<Longrightarrow> resolve (Suc n) abi name st = Some (r, st)"
  by (simp add: resolve_Suc_def)

lemma resolve_each_single:
  "resolve_each n abi [x] st =
     (case resolve n abi x st of None \<Rightarrow> None | Some (r, st') \<Rightarrow> Some ([r], st'))"
  by (simp split: option.splits)

lemma modify_id: "modify a (\<lambda>t. t) st = st"
  by (simp add: modify_def)

lemma resolve_miss:
  assumes "getProperty (cache st) name = None"
  shows "resolve (Suc n) abi name st =
     (case resolve_each n abi (fst (populate abi (baseName name))) (register name st) of
        None \<Rightarrow> None
      | Some (rs, st2) \<Rightarrow>
          Some (Node (length (heap st)),
                modify (length (heap st)) (snd (populate abi (baseName name)) rs) st2))"
proof (cases "find (\<lambda>typeDef. new_type_name typeDef = baseName name) (types abi)")
  case (Some al)
  with assms show ?thesis
    by (simp add: Let_def resolve_Suc_def rt_name_new populate_def resolve_each_single setRef_def
        modify_def split: option.splits)
next
  case noAlias: None
  show ?thesis
  proof (cases "resolveStruct abi (baseName name)")
    case (Some fields')
    with assms noAlias show ?thesis
      by (simp add: Let_def resolve_Suc_def rt_name_new populate_def setFields_def modify_def
          split: option.splits)
  next
    case noStruct: None
    show ?thesis
    proof (cases "getVariant abi (baseName name)")
      case (Some variant)
      with assms noAlias noStruct show ?thesis
        by (simp add: Let_def resolve_Suc_def rt_name_new populate_def setVariant_def modify_def
            split: option.splits)
    next
      case None
      with assms noAlias noStruct show ?thesis
        by (simp add: Let_def resolve_Suc_def rt_name_new populate_def modify_id)
    qed
  qed
qed

lemma resolve_rule:
  fixes R :: "string \<Rightarrow> pass \<Rightarrow> ref \<Rightarrow> pass \<Rightarrow> bool"
    and E :: "string list \<Rightarrow> pass \<Rightarrow> ref list \<Rightarrow> pass \<Rightarrow> bool"
  assumes hit: "\<And>name st r. getProperty (cache st) name = Some r \<Longrightarrow> R name st r st"
    and miss: "\<And>n name st rs st2. getProperty (cache st) name = None \<Longrightarrow>
        resolve_each n abi (fst (populate abi (baseName name))) (register name st)
          = Some (rs, st2) \<Longrightarrow>
        E (fst (populate abi (baseName name))) (register name st) rs st2 \<Longrightarrow>
        R name st (Node (length (heap st)))
          (modify (length (heap st)) (snd (populate abi (baseName name)) rs) st2)"
    and nil: "\<And>st. E [] st [] st"
    and cons: "\<And>n name names st r st1 rs st2. resolve n abi name st = Some (r, st1) \<Longrightarrow>
        resolve_each n abi names st1 = Some (rs, st2) \<Longrightarrow>
        R name st r st1 \<Longrightarrow> E names st1 rs st2 \<Longrightarrow>
        E (name # names) st (r # rs) st2"
  shows "(\<forall>name st r st'. resolve n abi name st = Some (r, st') \<longrightarrow> R name st r st')
       \<and> (\<forall>names st rs st'. resolve_each n abi names st = Some (rs, st') \<longrightarrow> E names st rs st')"
proof -
  have each: "resolve_each n abi names st = Some (rs, st') \<Longrightarrow> E names st rs st'"
    if one: "\<And>name st r st'. resolve n abi name st = Some (r, st') \<Longrightarrow> R name st r st'"
    for n names st rs st'
  proof (induction names arbitrary: st rs st')
    case Nil
    then show ?case using nil by simp
  next
    case (Cons name names)
    from Cons.prems obtain r st1 rs' where
      a: "resolve n abi name st = Some (r, st1)" and
      b: "resolve_each n abi names st1 = Some (rs', st')" and c: "rs = r # rs'"
      by (auto split: option.splits)
    from cons [OF a b one [OF a] Cons.IH [OF b]] c show ?case by simp
  qed
  have one: "resolve n abi name st = Some (r, st') \<Longrightarrow> R name st r st'" for n name st r st'
  proof (induction n arbitrary: name st r st')
    case 0
    then show ?case by simp
  next
    case (Suc n)
    show ?case
    proof (cases "getProperty (cache st) name")
      case (Some existing)
      with Suc.prems hit show ?thesis by (simp add: resolve_hit)
    next
      case None
      from Suc.prems obtain rs st2 where
        a: "resolve_each n abi (fst (populate abi (baseName name))) (register name st)
              = Some (rs, st2)" and
        b: "r = Node (length (heap st))" and
        c: "st' = modify (length (heap st)) (snd (populate abi (baseName name)) rs) st2"
        by (auto simp: resolve_miss [OF None] split: option.splits)
      have "E (fst (populate abi (baseName name))) (register name st) rs st2"
        using each [OF Suc.IH a] .
      from miss [OF None a this] b c show ?thesis by simp
    qed
  qed
  from one each show ?thesis by blast
qed

lemma find_Some_mem: "find P xs = Some x \<Longrightarrow> x \<in> set xs \<and> P x"
  by (auto simp: find_Some_iff)

lemma populate_names: "set (fst (populate abi tname)) \<subseteq> set (schemaNames abi)"
proof (cases "find (\<lambda>typeDef. new_type_name typeDef = tname) (types abi)")
  case (Some al)
  then have "al \<in> set (types abi)" by (simp add: find_Some_mem)
  with Some show ?thesis by (simp add: populate_def schemaNames_def)
next
  case noAlias: None
  show ?thesis
  proof (cases "resolveStruct abi tname")
    case (Some fields')
    have "field_type f \<in> set (schemaNames abi)" if "f \<in> set fields'" for f
    proof -
      from resolveStruct_fields [OF Some] that obtain s where
        "s \<in> set (structs abi)" "f \<in> set (struct_fields s)"
        by (auto simp: declaredFields_def)
      then show ?thesis by (auto simp: schemaNames_def)
    qed
    with noAlias Some show ?thesis by (auto simp: populate_def)
  next
    case noStruct: None
    show ?thesis
    proof (cases "getVariant abi tname")
      case (Some variant)
      then have "variant \<in> set (variants abi)"
        by (simp add: getVariant_def find_Some_mem)
      with noAlias noStruct Some show ?thesis
        by (auto simp: populate_def schemaNames_def)
    next
      case None
      with noAlias noStruct show ?thesis by (simp add: populate_def)
    qed
  qed
qed

lemma register_cache: "cache (register name st) = (cache st)(name \<mapsto> Node (length (heap st)))"
  by (simp add: register_def Let_def typeName_new)

lemma register_heap:
  "heap (register name st) = heap st @ [ResolvedType_new name (Suc (ctx_id st))]"
  by (simp add: register_def Let_def)

lemma register_ctx_id: "ctx_id (register name st) = Suc (ctx_id st)"
  by (simp add: register_def Let_def)

lemma modify_cache: "cache (modify a f st) = cache st"
  by (simp add: modify_def)

lemma modify_ctx_id: "ctx_id (modify a f st) = ctx_id st"
  by (simp add: modify_def)

lemma modify_heap: "heap (modify a f st) = (heap st)[a := f (heap st ! a)]"
  by (simp add: modify_def)

lemma getProperty_None: "getProperty obj name = None \<longleftrightarrow> obj name = None \<and> name \<notin> set objectPrototype"
  by (simp add: getProperty_def split: option.splits)

lemma getProperty_Some:
  "getProperty obj name = Some r \<longleftrightarrow>
     obj name = Some r \<or> (obj name = None \<and> name \<in> set objectPrototype \<and> r = Inherited name)"
  by (auto simp: getProperty_def split: option.splits)

text \<open>Enough budget: the names outside the cache become fewer with every nested call.\<close>

lemma resolve_total_aux:
  assumes fin: "finite U" and sub: "set (schemaNames abi) \<subseteq> U"
  shows "(\<forall>name st. name \<in> U \<longrightarrow> card (U - dom (cache st)) < n \<longrightarrow>
            (\<exists>r st'. resolve n abi name st = Some (r, st') \<and> dom (cache st) \<subseteq> dom (cache st')))
       \<and> (\<forall>names st. set names \<subseteq> U \<longrightarrow> card (U - dom (cache st)) < n \<longrightarrow>
            (\<exists>rs st'. resolve_each n abi names st = Some (rs, st')
               \<and> dom (cache st) \<subseteq> dom (cache st')))"
proof -
  have each: "\<exists>rs st'. resolve_each n abi names st = Some (rs, st')
                \<and> dom (cache st) \<subseteq> dom (cache st')"
    if one: "\<And>name st. name \<in> U \<Longrightarrow> card (U - dom (cache st)) < n \<Longrightarrow>
               \<exists>r st'. resolve n abi name st = Some (r, st') \<and> dom (cache st) \<subseteq> dom (cache st')"
      and names: "set names \<subseteq> U" and small: "card (U - dom (cache st)) < n"
    for n names st
    using names small
  proof (induction names arbitrary: st)
    case Nil
    then show ?case by simp
  next
    case (Cons name names)
    from Cons.prems have "name \<in> U" by simp
    from one [OF this Cons.prems(2)] obtain r st1 where
      a: "resolve n abi name st = Some (r, st1)" and b: "dom (cache st) \<subseteq> dom (cache st1)"
      by blast
    from b have "U - dom (cache st1) \<subseteq> U - dom (cache st)" by blast
    with fin have "card (U - dom (cache st1)) \<le> card (U - dom (cache st))"
      by (intro card_mono) auto
    with Cons.prems(2) have small1: "card (U - dom (cache st1)) < n" by simp
    from Cons.prems(1) have "set names \<subseteq> U" by simp
    from Cons.IH [OF this small1] obtain rs st2 where
      c: "resolve_each n abi names st1 = Some (rs, st2)"
      and d: "dom (cache st1) \<subseteq> dom (cache st2)" by blast
    from a c have "resolve_each n abi (name # names) st = Some (r # rs, st2)" by simp
    with b d show ?case by blast
  qed
  have one: "\<exists>r st'. resolve n abi name st = Some (r, st') \<and> dom (cache st) \<subseteq> dom (cache st')"
    if "name \<in> U" and "card (U - dom (cache st)) < n" for n name st
    using that
  proof (induction n arbitrary: name st)
    case 0
    then show ?case by simp
  next
    case (Suc n)
    show ?case
    proof (cases "getProperty (cache st) name")
      case (Some existing)
      then show ?thesis by (auto simp: resolve_hit)
    next
      case None
      let ?st1 = "register name st"
      let ?names = "fst (populate abi (baseName name))"
      from None have fresh: "name \<notin> dom (cache st)"
        by (auto simp: getProperty_None)
      have dom1: "dom (cache ?st1) = insert name (dom (cache st))"
        by (simp add: register_cache)
      from fresh Suc.prems(1) have "U - dom (cache ?st1) \<subset> U - dom (cache st)"
        unfolding dom1 by blast
      with fin have "card (U - dom (cache ?st1)) < card (U - dom (cache st))"
        by (intro psubset_card_mono) auto
      with Suc.prems(2) have small1: "card (U - dom (cache ?st1)) < n" by simp
      from populate_names sub have "set ?names \<subseteq> U" by blast
      from each [OF Suc.IH this small1] obtain rs st2 where
        a: "resolve_each n abi ?names ?st1 = Some (rs, st2)"
        and b: "dom (cache ?st1) \<subseteq> dom (cache st2)" by blast
      from a have "resolve (Suc n) abi name st =
          Some (Node (length (heap st)),
                modify (length (heap st)) (snd (populate abi (baseName name)) rs) st2)"
        by (simp add: resolve_miss [OF None])
      moreover from b dom1 have "dom (cache st) \<subseteq>
          dom (cache (modify (length (heap st)) (snd (populate abi (baseName name)) rs) st2))"
        by (auto simp: modify_cache)
      ultimately show ?thesis by blast
    qed
  qed
  from one each show ?thesis by blast
qed

lemma resolveType_total: "\<exists>r st. resolveType abi name = Some (r, st)"
proof -
  let ?U = "set (name # schemaNames abi)"
  have "length (remdups (name # schemaNames abi)) = card ?U"
    by (rule length_remdups_card_conv)
  then have "card (?U - dom (cache newPass)) < depthBound abi name"
    by (simp add: newPass_def depthBound_def)
  with resolve_total_aux [of ?U abi "depthBound abi name"]
  have "\<exists>r st'. resolve (depthBound abi name) abi name newPass = Some (r, st')
      \<and> dom (cache newPass) \<subseteq> dom (cache st')"
    by auto
  then show ?thesis by (auto simp: resolveType_def)
qed

text \<open>A larger budget changes no result.\<close>

lemma resolve_mono_aux:
  "(\<forall>name st x. resolve n abi name st = Some x \<longrightarrow> resolve (Suc n) abi name st = Some x)
   \<and> (\<forall>names st x. resolve_each n abi names st = Some x \<longrightarrow>
         resolve_each (Suc n) abi names st = Some x)"
proof -
  have each: "resolve_each (Suc n) abi names st = Some x"
    if one: "\<And>name st x. resolve n abi name st = Some x \<Longrightarrow> resolve (Suc n) abi name st = Some x"
      and res: "resolve_each n abi names st = Some x"
    for n names st x
    using res
  proof (induction names arbitrary: st x)
    case Nil
    then show ?case by simp
  next
    case (Cons name names)
    from Cons.prems obtain r st1 rs st2 where
      a: "resolve n abi name st = Some (r, st1)" and
      b: "resolve_each n abi names st1 = Some (rs, st2)" and c: "x = (r # rs, st2)"
      by (auto split: option.splits)
    from one [OF a] Cons.IH [OF b] c show ?case by simp
  qed
  have one: "resolve n abi name st = Some x \<Longrightarrow> resolve (Suc n) abi name st = Some x"
    for n name st x
  proof (induction n arbitrary: name st x)
    case 0
    then show ?case by simp
  next
    case (Suc n)
    show ?case
    proof (cases "getProperty (cache st) name")
      case (Some existing)
      with Suc.prems show ?thesis by (simp add: resolve_hit)
    next
      case None
      from Suc.prems obtain rs st2 where
        a: "resolve_each n abi (fst (populate abi (baseName name))) (register name st)
              = Some (rs, st2)" and
        b: "x = (Node (length (heap st)),
              modify (length (heap st)) (snd (populate abi (baseName name)) rs) st2)"
        by (auto simp: resolve_miss [OF None] split: option.splits)
      from each [OF Suc.IH a] b show ?thesis
        by (simp add: resolve_miss [OF None])
    qed
  qed
  from one each show ?thesis by blast
qed

lemma resolve_Suc_budget:
  "resolve n abi name st = Some x \<Longrightarrow> resolve (Suc n) abi name st = Some x"
  using resolve_mono_aux [of n abi] by blast

lemma resolve_more_budget:
  "resolve n abi name st = Some x \<Longrightarrow> resolve (n + k) abi name st = Some x"
proof (induction k)
  case 0
  then show ?case by simp
next
  case (Suc k)
  then have "resolve (n + k) abi name st = Some x" by simp
  then show ?case using resolve_Suc_budget [of "n + k"] by simp
qed

lemma populate_keeps:
  "rt_id (snd (populate abi tname) rs t) = rt_id t"
  "rt_name (snd (populate abi tname) rs t) = rt_name t"
  "typeName (snd (populate abi tname) rs t) = typeName t"
  by (simp_all add: populate_def typeName_def split: option.splits)

lemma populate_complete:
  assumes "rt_ref t = None" "rt_fields t = None" "rt_variant t = None"
    and "length rs = length (fst (populate abi (rt_name t)))"
  shows "complete abi (snd (populate abi (rt_name t)) rs t)"
  using assms
  by (auto simp: populate_def complete_def split: option.splits)

lemma new_empty:
  "rt_ref (ResolvedType_new s i) = None" "rt_fields (ResolvedType_new s i) = None"
  "rt_variant (ResolvedType_new s i) = None" "rt_id (ResolvedType_new s i) = i"
  by (simp_all add: ResolvedType_new_def Let_def)

lemma consistent_newPass: "consistent newPass"
  by (simp add: consistent_def newPass_def)

lemma extends_refl: "extends st st"
  by (simp add: extends_def)

lemma extends_trans: "extends st st1 \<Longrightarrow> extends st1 st2 \<Longrightarrow> extends st st2"
  unfolding extends_def by (auto intro: map_le_trans)

lemma register_consistent:
  assumes "consistent st" and "getProperty (cache st) name = None"
  shows "consistent (register name st)"
proof -
  let ?ty = "ResolvedType_new name (Suc (ctx_id st))"
  from assms(1) have len: "ctx_id st = length (heap st)"
    and ids: "\<And>a. a < length (heap st) \<Longrightarrow> rt_id (heap st ! a) = Suc a"
    and keys: "\<And>k r. cache st k = Some r \<Longrightarrow>
        \<exists>a < length (heap st). r = Node a \<and> typeName (heap st ! a) = k"
    and proto: "\<And>k. k \<in> set objectPrototype \<Longrightarrow> cache st k = None"
    by (auto simp: consistent_def)
  from assms(2) have fresh: "name \<notin> set objectPrototype"
    by (simp add: getProperty_None)
  have 1: "ctx_id (register name st) = length (heap (register name st))"
    by (simp add: register_ctx_id register_heap len)
  have 2: "rt_id (heap (register name st) ! a) = Suc a"
    if "a < length (heap (register name st))" for a
  proof (cases "a < length (heap st)")
    case True
    then show ?thesis by (simp add: register_heap nth_append ids)
  next
    case False
    with that have "a = length (heap st)" by (simp add: register_heap)
    then show ?thesis by (simp add: register_heap new_empty len)
  qed
  have 3: "\<exists>a < length (heap (register name st)).
      r = Node a \<and> typeName (heap (register name st) ! a) = k"
    if "cache (register name st) k = Some r" for k r
  proof (cases "k = name")
    case True
    with that have "r = Node (length (heap st))" by (simp add: register_cache)
    with True show ?thesis
      by (intro exI [of _ "length (heap st)"]) (simp add: register_heap typeName_new)
  next
    case False
    with that have "cache st k = Some r" by (simp add: register_cache)
    from keys [OF this] obtain a where "a < length (heap st)" "r = Node a"
      "typeName (heap st ! a) = k" by blast
    then show ?thesis
      by (intro exI [of _ a]) (simp add: register_heap nth_append)
  qed
  have 4: "cache (register name st) k = None" if "k \<in> set objectPrototype" for k
    using that fresh proto by (auto simp: register_cache)
  from 1 2 3 4 show ?thesis unfolding consistent_def by blast
qed

lemma register_extends:
  assumes "getProperty (cache st) name = None"
  shows "extends st (register name st)"
proof -
  from assms have "cache st name = None" by (simp add: getProperty_None)
  then have "cache st \<subseteq>\<^sub>m cache (register name st)"
    by (auto simp: register_cache map_le_def)
  then show ?thesis by (simp add: extends_def register_heap)
qed

lemma modify_consistent:
  assumes "consistent st"
    and "rt_id (f (heap st ! a)) = rt_id (heap st ! a)"
    and "typeName (f (heap st ! a)) = typeName (heap st ! a)"
  shows "consistent (modify a f st)"
proof -
  have nth: "rt_id ((heap st)[a := f (heap st ! a)] ! b) = rt_id (heap st ! b)
      \<and> typeName ((heap st)[a := f (heap st ! a)] ! b) = typeName (heap st ! b)"
    if "b < length (heap st)" for b
    using that assms(2,3) by (cases "b = a") simp_all
  from assms(1) show ?thesis
    unfolding consistent_def modify_cache modify_ctx_id modify_heap length_list_update
    using nth by metis
qed

lemma resolve_invariant:
  "(\<forall>name st r st'. resolve n abi name st = Some (r, st') \<longrightarrow>
      (consistent st \<longrightarrow> consistent st' \<and> extends st st'
         \<and> list_all (complete abi) (drop (length (heap st)) (heap st'))
         \<and> answers st' name r))
   \<and> (\<forall>names st rs st'. resolve_each n abi names st = Some (rs, st') \<longrightarrow>
      (consistent st \<longrightarrow> consistent st' \<and> extends st st'
         \<and> list_all (complete abi) (drop (length (heap st)) (heap st'))
         \<and> length rs = length names))"
proof (rule resolve_rule)
  fix name :: string and st :: pass and r :: ref
  assume hit: "getProperty (cache st) name = Some r"
  show "consistent st \<longrightarrow> consistent st \<and> extends st st
      \<and> list_all (complete abi) (drop (length (heap st)) (heap st)) \<and> answers st name r"
  proof
    assume c: "consistent st"
    have "answers st name r"
    proof (cases "cache st name")
      case None
      with hit show ?thesis by (auto simp: getProperty_Some answers_def)
    next
      case (Some r')
      with hit have own: "cache st name = Some r" by (simp add: getProperty_Some)
      with c obtain a where "a < length (heap st)" "r = Node a" "typeName (heap st ! a) = name"
        unfolding consistent_def by blast
      with own show ?thesis by (simp add: answers_def)
    qed
    with c show "consistent st \<and> extends st st
      \<and> list_all (complete abi) (drop (length (heap st)) (heap st)) \<and> answers st name r"
      by (simp add: extends_refl)
  qed
next
  fix st :: pass
  show "consistent st \<longrightarrow> consistent st \<and> extends st st
      \<and> list_all (complete abi) (drop (length (heap st)) (heap st)) \<and> length [] = length []"
    by (simp add: extends_refl)
next
  fix name :: string and names :: "string list" and st st1 st2 :: pass
    and r :: ref and rs :: "ref list"
  assume one: "consistent st \<longrightarrow> consistent st1 \<and> extends st st1
      \<and> list_all (complete abi) (drop (length (heap st)) (heap st1)) \<and> answers st1 name r"
    and rest: "consistent st1 \<longrightarrow> consistent st2 \<and> extends st1 st2
      \<and> list_all (complete abi) (drop (length (heap st1)) (heap st2)) \<and> length rs = length names"
  show "consistent st \<longrightarrow> consistent st2 \<and> extends st st2
      \<and> list_all (complete abi) (drop (length (heap st)) (heap st2))
      \<and> length (r # rs) = length (name # names)"
  proof
    assume c: "consistent st"
    with one have c1: "consistent st1" and e1: "extends st st1"
      and f1: "list_all (complete abi) (drop (length (heap st)) (heap st1))" by auto
    with rest have c2: "consistent st2" and e2: "extends st1 st2"
      and f2: "list_all (complete abi) (drop (length (heap st1)) (heap st2))"
      and len: "length rs = length names" by auto
    from e1 obtain x1 where h1: "heap st1 = heap st @ x1" by (auto simp: extends_def)
    from e2 obtain x2 where h2: "heap st2 = heap st1 @ x2" by (auto simp: extends_def)
    from f1 f2 have "list_all (complete abi) (drop (length (heap st)) (heap st2))"
      by (simp add: h1 h2)
    with c2 e1 e2 len show "consistent st2 \<and> extends st st2
      \<and> list_all (complete abi) (drop (length (heap st)) (heap st2))
      \<and> length (r # rs) = length (name # names)"
      by (auto intro: extends_trans)
  qed
next
  fix name :: string and st st2 :: pass and rs :: "ref list"
  let ?names = "fst (populate abi (baseName name))"
  let ?f = "snd (populate abi (baseName name)) rs"
  let ?a = "length (heap st)"
  let ?ty = "ResolvedType_new name (Suc (ctx_id st))"
  let ?st1 = "register name st"
  let ?st' = "modify ?a ?f st2"
  assume miss: "getProperty (cache st) name = None"
    and kids: "consistent ?st1 \<longrightarrow> consistent st2 \<and> extends ?st1 st2
      \<and> list_all (complete abi) (drop (length (heap ?st1)) (heap st2))
      \<and> length rs = length ?names"
  show "consistent st \<longrightarrow> consistent ?st' \<and> extends st ?st'
      \<and> list_all (complete abi) (drop (length (heap st)) (heap ?st'))
      \<and> answers ?st' name (Node ?a)"
  proof
    assume c: "consistent st"
    from register_consistent [OF c miss] kids
    have c2: "consistent st2" and e2: "extends ?st1 st2"
      and f2: "list_all (complete abi) (drop (length (heap ?st1)) (heap st2))"
      and len: "length rs = length ?names" by auto
    from e2 obtain ext where h2: "heap st2 = heap st @ ?ty # ext"
      by (auto simp: extends_def register_heap)
    have at: "heap st2 ! ?a = ?ty" by (simp add: h2)
    have h': "heap ?st' = heap st @ ?f ?ty # ext"
      by (simp add: modify_heap h2)
    have c': "consistent ?st'"
      using c2 by (rule modify_consistent) (simp_all add: at populate_keeps)
    have e': "extends st ?st'"
    proof -
      from register_extends [OF miss] e2 have "cache st \<subseteq>\<^sub>m cache st2"
        by (auto simp: extends_def intro: map_le_trans)
      then show ?thesis by (simp add: extends_def h' modify_cache)
    qed
    have "complete abi (?f ?ty)"
      using populate_complete [of ?ty rs abi] len by (simp add: new_empty rt_name_new)
    moreover from f2 have "list_all (complete abi) ext"
      by (simp add: register_heap h2)
    ultimately have f': "list_all (complete abi) (drop (length (heap st)) (heap ?st'))"
      by (simp add: h')
    have "cache ?st1 name = Some (Node ?a)" by (simp add: register_cache)
    with e2 have "cache st2 name = Some (Node ?a)"
      by (auto simp: extends_def map_le_def dom_def)
    then have a': "answers ?st' name (Node ?a)"
      by (simp add: answers_def h' modify_cache populate_keeps typeName_new)
    from c' e' f' a' show "consistent ?st' \<and> extends st ?st'
      \<and> list_all (complete abi) (drop (length (heap st)) (heap ?st'))
      \<and> answers ?st' name (Node ?a)" by blast
  qed
qed

lemma resolveType_invariant:
  assumes "resolveType abi name = Some (r, st)"
  shows "consistent st" and "list_all (complete abi) (heap st)" and "answers st name r"
proof -
  from assms have "resolve (depthBound abi name) abi name newPass = Some (r, st)"
    by (simp add: resolveType_def)
  with resolve_invariant [of "depthBound abi name" abi] consistent_newPass
  have "consistent st \<and> list_all (complete abi) (drop (length (heap newPass)) (heap st))
      \<and> answers st name r" by blast
  then show "consistent st" and "list_all (complete abi) (heap st)" and "answers st name r"
    by (simp_all add: newPass_def)
qed

lemma populate_keeps_flags:
  "isArray (snd (populate abi tname) rs t) = isArray t"
  "isOptional (snd (populate abi tname) rs t) = isOptional t"
  "isExtension (snd (populate abi tname) rs t) = isExtension t"
  by (simp_all add: populate_def split: option.splits)

text \<open>The first node of a pass is the node of the requested name.\<close>

lemma resolveType_root:
  assumes "name \<notin> set objectPrototype"
  shows "\<exists>st rs ext. resolveType abi name = Some (Node 0, st)
           \<and> resolve_each (length (remdups (name # schemaNames abi))) abi
                (fst (populate abi (baseName name))) (register name newPass)
               = Some (rs, modify 0 (\<lambda>t. ResolvedType_new name 1) st)
           \<and> heap st = snd (populate abi (baseName name)) rs (ResolvedType_new name 1) # ext"
proof -
  let ?m = "length (remdups (name # schemaNames abi))"
  let ?st1 = "register name newPass"
  have miss: "getProperty (cache newPass) name = None"
    using assms by (simp add: getProperty_None newPass_def)
  have unfold: "resolveType abi name =
     (case resolve_each ?m abi (fst (populate abi (baseName name))) ?st1 of
        None \<Rightarrow> None
      | Some (rs, st2) \<Rightarrow>
          Some (Node (length (heap newPass)),
                modify (length (heap newPass)) (snd (populate abi (baseName name)) rs) st2))"
    unfolding resolveType_def depthBound_def by (rule resolve_miss [OF miss])
  from resolveType_total [of abi name] obtain r st where res: "resolveType abi name = Some (r, st)"
    by blast
  with unfold obtain rs st2 where
    kids: "resolve_each ?m abi (fst (populate abi (baseName name))) ?st1 = Some (rs, st2)"
    and r: "r = Node 0"
    and st: "st = modify 0 (snd (populate abi (baseName name)) rs) st2"
    by (auto simp: newPass_def split: option.splits)
  have "consistent ?st1"
    using consistent_newPass miss by (rule register_consistent)
  with resolve_invariant [of ?m abi] kids have "extends ?st1 st2" by blast
  then obtain ext where h2: "heap st2 = ResolvedType_new name 1 # ext"
    by (auto simp: extends_def register_heap newPass_def)
  have "heap st = snd (populate abi (baseName name)) rs (ResolvedType_new name 1) # ext"
    by (simp add: st modify_heap h2)
  moreover have "modify 0 (\<lambda>t. ResolvedType_new name 1) st = st2"
    by (simp add: st modify_def h2)
  ultimately show ?thesis using res r kids by auto
qed

lemma resolveType_leaf:
  assumes "name \<notin> set objectPrototype"
    and "find (\<lambda>typeDef. new_type_name typeDef = baseName name) (types abi) = None"
    and "resolveStruct abi (baseName name) = None"
    and "getVariant abi (baseName name) = None"
  shows "resolveType abi name = Some (Node 0, register name newPass)"
proof -
  have miss: "getProperty (cache newPass) name = None"
    using assms(1) by (simp add: getProperty_None newPass_def)
  have pop: "populate abi (baseName name) = ([], \<lambda>rs t. t)"
    using assms(2-4) by (simp add: populate_def)
  have "heap newPass = []" by (simp add: newPass_def)
  then have "resolve (Suc m) abi name newPass = Some (Node 0, register name newPass)" for m
    by (simp add: resolve_miss [OF miss] pop modify_id)
  then show ?thesis
    unfolding resolveType_def depthBound_def .
qed

lemma baseName_plain:
  assumes "\<not> endsWith s ''$''" "\<not> endsWith s ''?''" "\<not> endsWith s ''[]''"
  shows "baseName s = s"
  using assms by (simp add: baseName_def ResolvedType_new_def Let_def)

lemma complete_slots: "complete abi t \<Longrightarrow> populatedSlots t \<le> 1"
  by (auto simp: complete_def populatedSlots_def split: option.splits)


lemma populate_no_fields:
  "resolveStruct abi tname = None \<Longrightarrow> rt_fields (snd (populate abi tname) rs t) = rt_fields t"
  by (simp add: populate_def split: option.splits)

lemma complete_leaf:
  assumes "complete abi t"
    and "find (\<lambda>typeDef. new_type_name typeDef = rt_name t) (types abi) = None"
    and "resolveStruct abi (rt_name t) = None" and "getVariant abi (rt_name t) = None"
  shows "rt_fields t = None \<and> rt_variant t = None \<and> rt_ref t = None"
  using assms by (simp add: complete_def)

lemma resolveType_rootNode:
  assumes "name \<notin> set objectPrototype"
  shows "\<exists>rs. rootNode (resolveType abi name)
           = Some (snd (populate abi (baseName name)) rs (ResolvedType_new name 1))"
proof -
  from resolveType_root [OF assms, of abi] obtain st rs ext where
    "resolveType abi name = Some (Node 0, st)"
    "heap st = snd (populate abi (baseName name)) rs (ResolvedType_new name 1) # ext"
    by blast
  then have "rootNode (resolveType abi name)
      = Some (snd (populate abi (baseName name)) rs (ResolvedType_new name 1))"
    by (simp add: rootNode_def deref_def)
  then show ?thesis by blast
qed

text \<open>What \<open>resolve\<close> and \<open>resolve_each\<close> keep of \<open>consistent\<close>, and the cache entries
  they leave: every new node is indexed and linked.\<close>

lemma resolve_facts:
  assumes "resolve n abi name st = Some (r, st')" and "consistent st"
  shows "consistent st'" and "extends st st'" and "answers st' name r"
  using resolve_invariant [of n abi] assms by blast+

lemma resolve_each_facts:
  assumes "resolve_each n abi names st = Some (rs, st')" and "consistent st"
  shows "consistent st'" and "extends st st'"
  using resolve_invariant [of n abi] assms by blast+

lemma linked_mono:
  assumes "linked abi st t" and "cache st \<subseteq>\<^sub>m cache st'"
  shows "linked abi st' t"
proof -
  have "cache st' c \<noteq> None" if "cache st c \<noteq> None" for c
    using that assms(2) by (auto simp: map_le_def dom_def)
  with assms(1) show ?thesis
    unfolding linked_def list_all_iff by blast
qed

lemma register_indexed:
  assumes "indexed st" and "getProperty (cache st) name = None"
  shows "indexed (register name st)"
proof -
  from assms(2) have fresh: "cache st name = None" by (simp add: getProperty_None)
  have "cache (register name st) (typeName (heap (register name st) ! a)) = Some (Node a)"
    if "a < length (heap (register name st))" for a
  proof (cases "a < length (heap st)")
    case True
    with assms(1) have own: "cache st (typeName (heap st ! a)) = Some (Node a)"
      by (simp add: indexed_def)
    with fresh have "typeName (heap st ! a) \<noteq> name" by auto
    with own True show ?thesis by (simp add: register_cache register_heap nth_append)
  next
    case False
    with that have "a = length (heap st)" by (simp add: register_heap)
    then show ?thesis by (simp add: register_cache register_heap typeName_new)
  qed
  then show ?thesis by (simp add: indexed_def)
qed

lemma modify_indexed:
  assumes "indexed st" and "typeName (f (heap st ! a)) = typeName (heap st ! a)"
  shows "indexed (modify a f st)"
proof -
  have "typeName ((heap st)[a := f (heap st ! a)] ! b) = typeName (heap st ! b)"
    if "b < length (heap st)" for b
    using that assms(2) by (cases "b = a") simp_all
  with assms(1) show ?thesis
    by (simp add: indexed_def modify_cache modify_heap)
qed

lemma resolve_entries:
  "(\<forall>name st r st'. resolve n abi name st = Some (r, st') \<longrightarrow>
      (consistent st \<and> indexed st \<longrightarrow> indexed st'
         \<and> list_all (linked abi st') (drop (length (heap st)) (heap st'))))
   \<and> (\<forall>names st rs st'. resolve_each n abi names st = Some (rs, st') \<longrightarrow>
      (consistent st \<and> indexed st \<longrightarrow> indexed st'
         \<and> list_all (linked abi st') (drop (length (heap st)) (heap st'))
         \<and> list_all (\<lambda>c. c \<in> set objectPrototype \<or> cache st' c \<noteq> None) names))"
proof (rule resolve_rule)
  fix name :: string and st :: pass and r :: ref
  show "consistent st \<and> indexed st \<longrightarrow> indexed st
      \<and> list_all (linked abi st) (drop (length (heap st)) (heap st))"
    by simp
next
  fix st :: pass
  show "consistent st \<and> indexed st \<longrightarrow> indexed st
      \<and> list_all (linked abi st) (drop (length (heap st)) (heap st))
      \<and> list_all (\<lambda>c. c \<in> set objectPrototype \<or> cache st c \<noteq> None) []"
    by simp
next
  fix n :: nat and name :: string and names :: "string list" and st st1 st2 :: pass
    and r :: ref and rs :: "ref list"
  assume run1: "resolve n abi name st = Some (r, st1)"
    and run2: "resolve_each n abi names st1 = Some (rs, st2)"
    and one: "consistent st \<and> indexed st \<longrightarrow> indexed st1
      \<and> list_all (linked abi st1) (drop (length (heap st)) (heap st1))"
    and rest: "consistent st1 \<and> indexed st1 \<longrightarrow> indexed st2
      \<and> list_all (linked abi st2) (drop (length (heap st1)) (heap st2))
      \<and> list_all (\<lambda>c. c \<in> set objectPrototype \<or> cache st2 c \<noteq> None) names"
  show "consistent st \<and> indexed st \<longrightarrow> indexed st2
      \<and> list_all (linked abi st2) (drop (length (heap st)) (heap st2))
      \<and> list_all (\<lambda>c. c \<in> set objectPrototype \<or> cache st2 c \<noteq> None) (name # names)"
  proof
    assume pre: "consistent st \<and> indexed st"
    then have c: "consistent st" by simp
    from resolve_facts [OF run1 c] have c1: "consistent st1" and e1: "extends st st1"
      and ans: "answers st1 name r" by simp_all
    from resolve_each_facts [OF run2 c1] have e2: "extends st1 st2" by simp
    from one pre have i1: "indexed st1"
      and l1: "list_all (linked abi st1) (drop (length (heap st)) (heap st1))" by simp_all
    from rest c1 i1 have i2: "indexed st2"
      and l2: "list_all (linked abi st2) (drop (length (heap st1)) (heap st2))"
      and n2: "list_all (\<lambda>c. c \<in> set objectPrototype \<or> cache st2 c \<noteq> None) names"
      by simp_all
    from e1 obtain x1 where h1: "heap st1 = heap st @ x1" by (auto simp: extends_def)
    from e2 obtain x2 where h2: "heap st2 = heap st1 @ x2" by (auto simp: extends_def)
    from e2 have le: "cache st1 \<subseteq>\<^sub>m cache st2" by (simp add: extends_def)
    from l1 have "list_all (linked abi st1) x1" by (simp add: h1)
    then have "list_all (linked abi st2) x1"
      unfolding list_all_iff using linked_mono [OF _ le] by blast
    moreover from l2 have "list_all (linked abi st2) x2" by (simp add: h2)
    ultimately have l: "list_all (linked abi st2) (drop (length (heap st)) (heap st2))"
      by (simp add: h1 h2)
    have "name \<in> set objectPrototype \<or> cache st2 name \<noteq> None"
    proof (cases r)
      case (Node a)
      with ans have "cache st1 name = Some (Node a)" by (simp add: answers_def)
      with le have "cache st2 name = Some (Node a)" by (auto simp: map_le_def dom_def)
      then show ?thesis by simp
    next
      case (Inherited k)
      with ans show ?thesis by (simp add: answers_def)
    qed
    with i2 l n2 show "indexed st2
      \<and> list_all (linked abi st2) (drop (length (heap st)) (heap st2))
      \<and> list_all (\<lambda>c. c \<in> set objectPrototype \<or> cache st2 c \<noteq> None) (name # names)"
      by simp
  qed
next
  fix n :: nat and name :: string and st st2 :: pass and rs :: "ref list"
  let ?names = "fst (populate abi (baseName name))"
  let ?f = "snd (populate abi (baseName name)) rs"
  let ?a = "length (heap st)"
  let ?ty = "ResolvedType_new name (Suc (ctx_id st))"
  let ?st1 = "register name st"
  let ?st' = "modify ?a ?f st2"
  assume miss: "getProperty (cache st) name = None"
    and run: "resolve_each n abi ?names ?st1 = Some (rs, st2)"
    and kids: "consistent ?st1 \<and> indexed ?st1 \<longrightarrow> indexed st2
      \<and> list_all (linked abi st2) (drop (length (heap ?st1)) (heap st2))
      \<and> list_all (\<lambda>c. c \<in> set objectPrototype \<or> cache st2 c \<noteq> None) ?names"
  show "consistent st \<and> indexed st \<longrightarrow> indexed ?st'
      \<and> list_all (linked abi ?st') (drop (length (heap st)) (heap ?st'))"
  proof
    assume pre: "consistent st \<and> indexed st"
    then have c1: "consistent ?st1" and i1: "indexed ?st1"
      using miss by (simp_all add: register_consistent register_indexed)
    with kids have i2: "indexed st2"
      and l2: "list_all (linked abi st2) (drop (length (heap ?st1)) (heap st2))"
      and n2: "list_all (\<lambda>c. c \<in> set objectPrototype \<or> cache st2 c \<noteq> None) ?names"
      by simp_all
    from resolve_each_facts(2) [OF run c1] obtain ext where
      h2: "heap st2 = heap st @ ?ty # ext"
      by (auto simp: extends_def register_heap)
    have at: "heap st2 ! ?a = ?ty" by (simp add: h2)
    have h': "heap ?st' = heap st @ ?f ?ty # ext" by (simp add: modify_heap h2)
    have same: "linked abi ?st' t = linked abi st2 t" for t
      by (simp add: linked_def modify_cache)
    have i': "indexed ?st'"
      using i2 by (rule modify_indexed) (simp add: at populate_keeps)
    have "childNames abi (?f ?ty) = ?names"
      by (simp add: childNames_def populate_keeps rt_name_new)
    with n2 have "linked abi ?st' (?f ?ty)"
      by (simp add: linked_def modify_cache)
    moreover from l2 have "list_all (linked abi st2) ext"
      by (simp add: register_heap h2)
    then have "list_all (linked abi ?st') ext"
      unfolding list_all_iff same .
    ultimately have "list_all (linked abi ?st') (drop (length (heap st)) (heap ?st'))"
      by (simp add: h')
    with i' show "indexed ?st'
      \<and> list_all (linked abi ?st') (drop (length (heap st)) (heap ?st'))" by simp
  qed
qed

lemma resolveType_entries:
  assumes "resolveType abi name = Some (r, st)"
  shows "indexed st" and "list_all (linked abi st) (heap st)"
proof -
  from assms have "resolve (depthBound abi name) abi name newPass = Some (r, st)"
    by (simp add: resolveType_def)
  moreover have "indexed newPass" by (simp add: indexed_def newPass_def)
  ultimately have "indexed st \<and> list_all (linked abi st) (drop (length (heap newPass)) (heap st))"
    using resolve_entries [of "depthBound abi name" abi] consistent_newPass by blast
  then show "indexed st" and "list_all (linked abi st) (heap st)"
    by (simp_all add: newPass_def)
qed

text \<open>
  A pass always returns, and every node of it has the slot that its base name calls
  for and no other. For a requested name that \<open>Object.prototype\<close> does not define the
  pass returns its first node.
\<close>

lemma resolveType_slots:
  "\<exists>r st. resolveType abi name = Some (r, st)
     \<and> answers st name r
     \<and> (name \<notin> set objectPrototype \<longrightarrow> r = Node 0 \<and> heap st \<noteq> [])
     \<and> (\<forall>t \<in> set (heap st).
           complete abi t \<and> populatedSlots t \<le> 1
           \<and> (find (\<lambda>typeDef. new_type_name typeDef = rt_name t) (types abi) = None
               \<and> resolveStruct abi (rt_name t) = None \<and> getVariant abi (rt_name t) = None
               \<longrightarrow> rt_fields t = None \<and> rt_variant t = None \<and> rt_ref t = None))"
proof -
  from resolveType_total [of abi name] obtain r st where
    res: "resolveType abi name = Some (r, st)" by blast
  from resolveType_invariant [OF res]
  have all: "list_all (complete abi) (heap st)" and ans: "answers st name r" by simp_all
  have root: "r = Node 0 \<and> heap st \<noteq> []" if "name \<notin> set objectPrototype"
    using resolveType_root [OF that, of abi] res by auto
  have "complete abi t \<and> populatedSlots t \<le> 1
      \<and> (find (\<lambda>typeDef. new_type_name typeDef = rt_name t) (types abi) = None
          \<and> resolveStruct abi (rt_name t) = None \<and> getVariant abi (rt_name t) = None
          \<longrightarrow> rt_fields t = None \<and> rt_variant t = None \<and> rt_ref t = None)"
    if "t \<in> set (heap st)" for t
  proof -
    from all that have c: "complete abi t" by (simp add: list_all_iff)
    from c complete_slots [OF c] complete_leaf [OF c] show ?thesis by blast
  qed
  with res ans root show ?thesis by blast
qed

section \<open>Facts about the variant value\<close>

lemma findIndex_found:
  "\<exists>x \<in> set xs. p x \<Longrightarrow>
   \<exists>i < length xs. findIndex p xs = int i \<and> p (xs ! i) \<and> (\<forall>j < i. \<not> p (xs ! j))"
proof (induction xs)
  case Nil
  then show ?case by simp
next
  case (Cons x xs)
  show ?case
  proof (cases "p x")
    case True
    then show ?thesis by auto
  next
    case False
    with Cons.prems have "\<exists>x \<in> set xs. p x" by simp
    from Cons.IH [OF this] obtain i where i: "i < length xs" "findIndex p xs = int i"
      "p (xs ! i)" "\<forall>j < i. \<not> p (xs ! j)" by blast
    have "\<forall>j < Suc i. \<not> p ((x # xs) ! j)"
    proof (intro allI impI)
      fix j assume "j < Suc i"
      then show "\<not> p ((x # xs) ! j)" using False i(4) by (cases j) auto
    qed
    with False i show ?thesis
      by (intro exI [of _ "Suc i"]) (simp add: Let_def)
  qed
qed

lemma findIndex_missing: "\<forall>x \<in> set xs. \<not> p x \<Longrightarrow> findIndex p xs = - 1"
  by (induction xs) (simp_all add: Let_def)

lemma Variant_new_found:
  assumes "tag \<in> set (map abiTypeString abiVariant)"
  shows "\<exists>i < length abiVariant.
           Variant_new abiTypeString abiVariant (tag, payload)
             = Inr \<lparr>variantValue = payload, variantIdx = int i\<rparr>
           \<and> abiTypeString (abiVariant ! i) = tag
           \<and> (\<forall>j < i. abiTypeString (abiVariant ! j) \<noteq> tag)"
proof -
  let ?ts = "map abiTypeString abiVariant"
  from assms have "\<exists>t \<in> set ?ts. t = tag" by simp
  from findIndex_found [of ?ts "\<lambda>t. t = tag", OF this]
  obtain i where i: "i < length ?ts" "findIndex (\<lambda>t. t = tag) ?ts = int i" "?ts ! i = tag"
    "\<forall>j < i. ?ts ! j \<noteq> tag" by blast
  then show ?thesis
    by (intro exI [of _ i]) (simp add: Variant_new_def)
qed

lemma Variant_new_missing:
  assumes "tag \<notin> set (map abiTypeString abiVariant)"
  shows "Variant_new abiTypeString abiVariant (tag, payload)
           = Inl (Error (''Unknown variant '' @ tag))"
proof -
  from assms have "\<forall>t \<in> set (map abiTypeString abiVariant). \<not> t = tag" by auto
  from findIndex_missing [OF this] show ?thesis
    by (simp add: Variant_new_def)
qed

lemma variantName_new:
  assumes "Variant_new abiTypeString abiVariant (tag, payload) = Inr v"
  shows "variantName abiTypeString abiVariant v = Some tag \<and> variantValue v = payload"
proof (cases "tag \<in> set (map abiTypeString abiVariant)")
  case True
  from Variant_new_found [OF True, of payload] assms show ?thesis
    by (auto simp: variantName_def)
next
  case False
  from Variant_new_missing [OF False, of payload] assms show ?thesis by simp
qed

section \<open>The claims\<close>

text \<open>
  Claim C1. \<open>resolveType\<close> terminates for every schema and every type name, whatever
  cycles the schema has: with the budget \<open>depthBound\<close> for the depth of the nested calls
  \<open>resolve\<close> returns a result, and a larger budget gives the same result. The reason is
  that a new node is registered in the cache before its children are resolved: a call
  of \<open>resolve\<close> for a name in a state in which that name has just been registered
  returns the registered reference and leaves the state as it is.
\<close>

theorem resolveType_terminates:
  "(\<exists>r st. resolveType abi name = Some (r, st))
   \<and> (\<forall>k. resolve (depthBound abi name + k) abi name newPass = resolveType abi name)
   \<and> resolve (Suc n) abi name (register name st)
       = Some (Node (length (heap st)), register name st)"
proof (intro conjI allI)
  show "\<exists>r st. resolveType abi name = Some (r, st)" by (rule resolveType_total)
next
  fix k
  from resolveType_total [of abi name] obtain x where
    "resolve (depthBound abi name) abi name newPass = Some x"
    by (auto simp: resolveType_def)
  from resolve_more_budget [OF this, of k] this
  show "resolve (depthBound abi name + k) abi name newPass = resolveType abi name"
    by (simp add: resolveType_def)
next
  have "getProperty (cache (register name st)) name = Some (Node (length (heap st)))"
    by (simp add: getProperty_def register_cache)
  then show "resolve (Suc n) abi name (register name st)
       = Some (Node (length (heap st)), register name st)"
    by (rule resolve_hit)
qed

theorem resolveType_terminates_witness:
  "(\<exists>r st. resolveType exampleGraph ''link'' = Some (r, st))
   \<and> resolve (depthBound exampleGraph ''link'' + 5) exampleGraph ''link'' newPass
       = resolveType exampleGraph ''link''
   \<and> map_option rt_ref (rootNode (resolveType exampleGraph ''link'')) = Some (Some (Node 1))
   \<and> map_option rt_ref (rootNode (resolve 1 exampleGraph ''link'' (register ''link'' newPass)))
       = Some None"
proof -
  have a: "map_option rt_ref (rootNode (resolveType exampleGraph ''link'')) = Some (Some (Node 1))"
    by code_simp
  have b: "map_option rt_ref
      (rootNode (Some (Node (length (heap newPass)), register ''link'' newPass))) = Some None"
    by code_simp
  note t = resolveType_terminates [of exampleGraph "''link''" 0 newPass]
  from t have c: "\<exists>r st. resolveType exampleGraph ''link'' = Some (r, st)" by (rule conjunct1)
  from t have "\<forall>k. resolve (depthBound exampleGraph ''link'' + k) exampleGraph ''link'' newPass
      = resolveType exampleGraph ''link''" by (rule conjunct2 [THEN conjunct1])
  then have d: "resolve (depthBound exampleGraph ''link'' + 5) exampleGraph ''link'' newPass
      = resolveType exampleGraph ''link''" by (rule spec)
  from t have "resolve (Suc 0) exampleGraph ''link'' (register ''link'' newPass)
      = Some (Node (length (heap newPass)), register ''link'' newPass)"
    by (rule conjunct2 [THEN conjunct2])
  with b have e: "map_option rt_ref
      (rootNode (resolve 1 exampleGraph ''link'' (register ''link'' newPass))) = Some None"
    by simp
  from c d a e show ?thesis by (intro conjI)
qed

text \<open>
  Claim C2. For every struct whose base chain is acyclic, \<open>resolveStruct\<close> returns the
  fields of the structs of the chain, each struct's own fields in their declared order,
  the base-most struct first and the most derived struct last. For \<open>D\<close> with base \<open>B\<close>,
  where \<open>B\<close> declares \<open>[b0, b1]\<close> and \<open>D\<close> declares \<open>[d0]\<close>, the result is \<open>[b0, b1, d0]\<close>
  (the witness).
\<close>

theorem resolveStruct_base_first:
  assumes "baseChain abi name (s # ss)"
  shows "resolveStruct abi name = Some (concat (map struct_fields (rev (s # ss))))"
proof -
  from assms have found: "getStruct abi name = Some s"
    and chain: "baseChain abi (struct_base s) ss" by auto
  from found have nm: "struct_name s = name" by (simp add: getStruct_Some)
  have inv: "\<forall>n \<in> insert (struct_name s) {}. \<forall>ss'. baseChain abi n ss' \<longrightarrow> length ss < length ss'"
  proof (intro ballI allI impI)
    fix n ss' assume "n \<in> insert (struct_name s) {}" and "baseChain abi n ss'"
    with nm assms have "ss' = s # ss" using baseChain_unique by auto
    then show "length ss < length ss'" by simp
  qed
  show ?thesis
    using found loop_acyclic [OF chain inv, of "[]"] by (simp add: resolveStruct_def)
qed

theorem resolveStruct_base_first_witness:
  "baseChain exampleDB ''D'' (structs exampleDB)
   \<and> resolveStruct exampleDB ''D''
       = Some [\<lparr>field_name = ''b0'', field_type = ''int8''\<rparr>,
               \<lparr>field_name = ''b1'', field_type = ''int8[]''\<rparr>,
               \<lparr>field_name = ''d0'', field_type = ''string''\<rparr>]"
proof -
  have chain: "baseChain exampleDB ''D'' (structs exampleDB)"
    by (simp add: exampleDB_def getStruct_def)
  have "structs exampleDB = hd (structs exampleDB) # tl (structs exampleDB)"
    by (simp add: exampleDB_def)
  with chain have "baseChain exampleDB ''D'' (hd (structs exampleDB) # tl (structs exampleDB))"
    by simp
  from resolveStruct_base_first [OF this] chain show ?thesis
    by (simp add: exampleDB_def)
qed

text \<open>
  Claim C3, as amended. For every struct whose base chain revisits the name of a struct
  already seen, \<open>resolveStruct\<close> returns absent; it neither raises nor loops. If the
  struct's name ends with no modifier suffix and is not the name of a member of
  \<open>Object.prototype\<close>, \<open>resolveType\<close> on it then yields a node without fields; the node
  is a leaf, with no \<open>fields\<close>, \<open>variant\<close> or \<open>ref\<close>, if moreover no alias and no variant is
  declared under that name. If no struct has the name, \<open>resolveStruct\<close> returns absent.
\<close>

theorem resolveStruct_cycle_absent:
  "(revisits abi name ss \<longrightarrow>
      resolveStruct abi name = None
      \<and> (\<not> endsWith name ''$'' \<and> \<not> endsWith name ''?'' \<and> \<not> endsWith name ''[]''
          \<and> name \<notin> set objectPrototype \<longrightarrow>
          (\<exists>t. rootNode (resolveType abi name) = Some t \<and> rt_fields t = None))
      \<and> (\<not> endsWith name ''$'' \<and> \<not> endsWith name ''?'' \<and> \<not> endsWith name ''[]''
          \<and> name \<notin> set objectPrototype
          \<and> find (\<lambda>typeDef. new_type_name typeDef = name) (types abi) = None
          \<and> getVariant abi name = None \<longrightarrow>
          rootNode (resolveType abi name)
            = Some \<lparr>rt_name = name, rt_id = 1, isArray = False, isOptional = False,
                     isExtension = False, rt_fields = None, rt_variant = None, rt_ref = None\<rparr>))
   \<and> (getStruct abi name = None \<longrightarrow> resolveStruct abi name = None)"
proof (intro conjI impI)
  assume "revisits abi name ss"
  then show "resolveStruct abi name = None" by (rule resolveStruct_cyclic)
next
  assume cyc: "revisits abi name ss"
    and plain: "\<not> endsWith name ''$'' \<and> \<not> endsWith name ''?'' \<and> \<not> endsWith name ''[]''
          \<and> name \<notin> set objectPrototype"
  from plain have base: "baseName name = name" by (simp add: baseName_plain)
  from plain resolveType_rootNode [of name abi] obtain rs where
    root: "rootNode (resolveType abi name)
             = Some (snd (populate abi (baseName name)) rs (ResolvedType_new name 1))"
    by blast
  from resolveStruct_cyclic [OF cyc]
  have "rt_fields (snd (populate abi (baseName name)) rs (ResolvedType_new name 1)) = None"
    by (simp add: base populate_no_fields new_empty)
  with root show "\<exists>t. rootNode (resolveType abi name) = Some t \<and> rt_fields t = None"
    by blast
next
  assume cyc: "revisits abi name ss"
    and plain: "\<not> endsWith name ''$'' \<and> \<not> endsWith name ''?'' \<and> \<not> endsWith name ''[]''
          \<and> name \<notin> set objectPrototype
          \<and> find (\<lambda>typeDef. new_type_name typeDef = name) (types abi) = None
          \<and> getVariant abi name = None"
  from plain have base: "baseName name = name" by (simp add: baseName_plain)
  from plain have new: "ResolvedType_new name (Suc 0)
      = \<lparr>rt_name = name, rt_id = Suc 0, isArray = False, isOptional = False,
         isExtension = False, rt_fields = None, rt_variant = None, rt_ref = None\<rparr>"
    using new_canonical [of name False False False "Suc 0"] by simp
  from resolveStruct_cyclic [OF cyc] plain base
  have "resolveType abi name = Some (Node 0, register name newPass)"
    by (intro resolveType_leaf) simp_all
  then show "rootNode (resolveType abi name)
            = Some \<lparr>rt_name = name, rt_id = 1, isArray = False, isOptional = False,
                     isExtension = False, rt_fields = None, rt_variant = None, rt_ref = None\<rparr>"
    by (simp add: rootNode_def deref_def register_heap newPass_def new)
next
  assume "getStruct abi name = None"
  then show "resolveStruct abi name = None" by (rule resolveStruct_missing)
qed

theorem resolveStruct_cycle_absent_witness:
  "revisits exampleMutual ''A'' (structs exampleMutual)
   \<and> revisits exampleSelf ''A'' (structs exampleSelf)
   \<and> resolveStruct exampleMutual ''A'' = None
   \<and> resolveStruct exampleSelf ''A'' = None
   \<and> \<not> endsWith ''A'' ''$'' \<and> \<not> endsWith ''A'' ''?'' \<and> \<not> endsWith ''A'' ''[]''
   \<and> ''A'' \<notin> set objectPrototype
   \<and> find (\<lambda>typeDef. new_type_name typeDef = ''A'') (types exampleMutual) = None
   \<and> getVariant exampleMutual ''A'' = None
   \<and> rootNode (resolveType exampleMutual ''A'')
        = Some \<lparr>rt_name = ''A'', rt_id = 1, isArray = False, isOptional = False,
                 isExtension = False, rt_fields = None, rt_variant = None, rt_ref = None\<rparr>
   \<and> getStruct exampleMutual ''C'' = None
   \<and> resolveStruct exampleMutual ''C'' = None"
proof -
  have a: "revisits exampleMutual ''A'' (structs exampleMutual)" by code_simp
  have a': "revisits exampleSelf ''A'' (structs exampleSelf)" by code_simp
  have b1: "\<not> endsWith ''A'' ''$''" and b2: "\<not> endsWith ''A'' ''?''"
    and b3: "\<not> endsWith ''A'' ''[]''" and b4: "''A'' \<notin> set objectPrototype"
    and b5: "find (\<lambda>typeDef. new_type_name typeDef = ''A'') (types exampleMutual) = None"
    and b6: "getVariant exampleMutual ''A'' = None"
    by code_simp+
  from b1 b2 b3 b4 b5 b6
  have b: "\<not> endsWith ''A'' ''$'' \<and> \<not> endsWith ''A'' ''?'' \<and> \<not> endsWith ''A'' ''[]''
          \<and> ''A'' \<notin> set objectPrototype
          \<and> find (\<lambda>typeDef. new_type_name typeDef = ''A'') (types exampleMutual) = None
          \<and> getVariant exampleMutual ''A'' = None" by (intro conjI)
  have c: "getStruct exampleMutual ''C'' = None" by code_simp
  note t = resolveStruct_cycle_absent [of exampleMutual "''A''" "structs exampleMutual"]
  from t a have d: "resolveStruct exampleMutual ''A'' = None" by blast
  from t a b have e: "rootNode (resolveType exampleMutual ''A'')
        = Some \<lparr>rt_name = ''A'', rt_id = 1, isArray = False, isOptional = False,
                 isExtension = False, rt_fields = None, rt_variant = None, rt_ref = None\<rparr>"
    by blast
  from resolveStruct_cycle_absent [of exampleSelf "''A''" "structs exampleSelf"] a'
  have d': "resolveStruct exampleSelf ''A'' = None" by blast
  from resolveStruct_cycle_absent [of exampleMutual "''C''" "[]"] c
  have f: "resolveStruct exampleMutual ''C'' = None" by blast
  from a a' d d' b1 b2 b3 b4 b5 b6 e c f show ?thesis by (intro conjI)
qed

text \<open>
  Claim C3 as it was stated asks for a leaf node whenever the base chain is cyclic. A
  struct \<open>A\<close> that is its own base, next to a variant \<open>A\<close>: \<open>resolveStruct\<close> is absent,
  and \<open>resolve\<close> goes on to the variant of the same name and populates \<open>variant\<close>.
\<close>

theorem resolveStruct_cycle_counterexample:
  "revisits exampleSelfVariant ''A'' (structs exampleSelfVariant)
   \<and> resolveStruct exampleSelfVariant ''A'' = None
   \<and> map_option rt_variant (rootNode (resolveType exampleSelfVariant ''A''))
       = Some (Some [Node 1])"
  by code_simp

text \<open>
  Claim C4. Every node that \<open>resolveType\<close> produces is to have exactly one of \<open>fields\<close>,
  \<open>variant\<close> and \<open>ref\<close>, or none: \<open>ref\<close> for an alias, otherwise \<open>fields\<close> for a struct,
  otherwise \<open>variant\<close> for a variant, and a base name that matches none of these is to
  yield a leaf node. The code misses this for a name that \<open>Object.prototype\<close> defines:
  the lookup \<open>types[name]\<close> in the cache object finds the inherited member, and \<open>resolve\<close>
  returns it without creating a node. For the declared struct \<open>toString\<close>, which has a
  field, \<open>resolveType\<close> returns the inherited member and the pass has no node at all;
  for the undeclared name \<open>valueOf\<close> it returns the inherited member and no leaf node.
  For every other name the property holds (lemma \<open>resolveType_slots\<close>).
\<close>

theorem resolveType_inherited_member:
  "resolveStruct exampleToString ''toString''
     = Some [\<lparr>field_name = ''x'', field_type = ''int8''\<rparr>]
   \<and> map_option fst (resolveType exampleToString ''toString'') = Some (Inherited ''toString'')
   \<and> rootNode (resolveType exampleToString ''toString'') = None
   \<and> map_option (heap \<circ> snd) (resolveType exampleToString ''toString'') = Some []
   \<and> map_option fst (resolveType emptyABI ''valueOf'') = Some (Inherited ''valueOf'')
   \<and> rootNode (resolveType emptyABI ''valueOf'') = None"
  by code_simp

text \<open>
  Claim C5. Parsing a type name strips a trailing \<open>$\<close> first, then a trailing \<open>?\<close> from
  what remains, then a trailing \<open>[]\<close> from what remains. So a base name that ends with
  none of the markers, followed by the markers it takes in the order \<open>[]\<close>, \<open>?\<close>, \<open>$\<close>,
  parses to that base name with exactly these flags, and \<open>typeName\<close> renders the same
  string again. \<open>foo[]?$\<close> parses to \<open>foo\<close> with all three flags (the witness).
\<close>

theorem typeName_suffix_order:
  "isExtension (ResolvedType_new s i) = endsWith s ''$''
   \<and> isOptional (ResolvedType_new s i) = endsWith (stripSuffix ''$'' s) ''?''
   \<and> isArray (ResolvedType_new s i) = endsWith (stripSuffix ''?'' (stripSuffix ''$'' s)) ''[]''
   \<and> rt_name (ResolvedType_new s i) = stripSuffix ''[]'' (stripSuffix ''?'' (stripSuffix ''$'' s))
   \<and> (\<not> endsWith b ''$'' \<and> \<not> endsWith b ''?'' \<and> \<not> endsWith b ''[]'' \<longrightarrow>
        (let full = b @ (if arr then ''[]'' else []) @ (if opt then ''?'' else [])
                      @ (if ext then ''$'' else [])
         in ResolvedType_new full i
              = \<lparr>rt_name = b, rt_id = i, isArray = arr, isOptional = opt, isExtension = ext,
                 rt_fields = None, rt_variant = None, rt_ref = None\<rparr>
            \<and> typeName (ResolvedType_new full i) = full))"
  using grammar_order [of s i] new_canonical [of b arr opt ext i]
  by (simp add: Let_def typeName_new)

theorem typeName_suffix_order_witness:
  "\<not> endsWith ''foo'' ''$'' \<and> \<not> endsWith ''foo'' ''?'' \<and> \<not> endsWith ''foo'' ''[]''
   \<and> ResolvedType_new ''foo[]?$'' 0
       = \<lparr>rt_name = ''foo'', rt_id = 0, isArray = True, isOptional = True, isExtension = True,
          rt_fields = None, rt_variant = None, rt_ref = None\<rparr>
   \<and> typeName (ResolvedType_new ''foo[]?$'' 0) = ''foo[]?$''"
proof -
  have h: "\<not> endsWith ''foo'' ''$'' \<and> \<not> endsWith ''foo'' ''?'' \<and> \<not> endsWith ''foo'' ''[]''"
    by (simp add: endsWith_def)
  from typeName_suffix_order [of "''foo''" 0 "''foo''" True True True] h
  show ?thesis by (simp add: Let_def typeName_def)
qed

text \<open>
  Claim C6, as amended. \<open>resolveType("foo")\<close> and \<open>resolveType("foo[]")\<close> return nodes with
  the different type names \<open>foo\<close> and \<open>foo[]\<close>, the same base name \<open>foo\<close> and different
  \<open>isArray\<close>; each call is a pass of its own, which counts from 0, so both nodes have
  the id 1. Within one pass every full name that the pass resolves and that
  \<open>Object.prototype\<close> does not define gets a cache entry of its own: the requested name
  has the entry of the first node, and every name that a node of the pass refers to
  (the target of its alias, the types of its fields, the alternatives of its variant)
  has an entry. Every node is the entry of its own \<open>typeName\<close> and has its position
  plus one as id, and the entries of two different full names refer to two different
  nodes with different ids.
\<close>

theorem resolveType_suffix_nodes:
  "(\<exists>t1 t2. rootNode (resolveType abi ''foo'') = Some t1
       \<and> rootNode (resolveType abi ''foo[]'') = Some t2
       \<and> typeName t1 = ''foo'' \<and> typeName t2 = ''foo[]''
       \<and> rt_name t1 = ''foo'' \<and> rt_name t2 = ''foo''
       \<and> \<not> isArray t1 \<and> isArray t2 \<and> rt_id t1 = 1 \<and> rt_id t2 = 1)
   \<and> (\<exists>r st. resolveType abi name = Some (r, st)
        \<and> (name \<notin> set objectPrototype \<longrightarrow> r = Node 0 \<and> cache st name = Some (Node 0))
        \<and> (\<forall>t \<in> set (heap st). \<forall>c \<in> set (childNames abi t).
              c \<notin> set objectPrototype \<longrightarrow> (\<exists>a. cache st c = Some (Node a)))
        \<and> (\<forall>a < length (heap st).
              cache st (typeName (heap st ! a)) = Some (Node a) \<and> rt_id (heap st ! a) = Suc a)
        \<and> (\<forall>k1 k2 r1 r2. cache st k1 = Some r1 \<and> cache st k2 = Some r2 \<and> k1 \<noteq> k2 \<longrightarrow>
             (\<exists>a1 a2. r1 = Node a1 \<and> r2 = Node a2 \<and> a1 \<noteq> a2
                \<and> a1 < length (heap st) \<and> a2 < length (heap st)
                \<and> typeName (heap st ! a1) = k1 \<and> typeName (heap st ! a2) = k2
                \<and> rt_id (heap st ! a1) \<noteq> rt_id (heap st ! a2))))"
proof (rule conjI)
  have p1: "''foo'' \<notin> set objectPrototype" and p2: "''foo[]'' \<notin> set objectPrototype"
    by (simp_all add: objectPrototype_def)
  from resolveType_rootNode [OF p1, of abi] obtain rs1 where
    t1: "rootNode (resolveType abi ''foo'')
           = Some (snd (populate abi (baseName ''foo'')) rs1 (ResolvedType_new ''foo'' 1))"
    by blast
  from resolveType_rootNode [OF p2, of abi] obtain rs2 where
    t2: "rootNode (resolveType abi ''foo[]'')
           = Some (snd (populate abi (baseName ''foo[]'')) rs2 (ResolvedType_new ''foo[]'' 1))"
    by blast
  have n1: "ResolvedType_new ''foo'' 1
      = \<lparr>rt_name = ''foo'', rt_id = 1, isArray = False, isOptional = False,
         isExtension = False, rt_fields = None, rt_variant = None, rt_ref = None\<rparr>"
    by code_simp
  have n2: "ResolvedType_new ''foo[]'' 1
      = \<lparr>rt_name = ''foo'', rt_id = 1, isArray = True, isOptional = False,
         isExtension = False, rt_fields = None, rt_variant = None, rt_ref = None\<rparr>"
    by code_simp
  let ?t1 = "snd (populate abi (baseName ''foo'')) rs1 (ResolvedType_new ''foo'' 1)"
  let ?t2 = "snd (populate abi (baseName ''foo[]'')) rs2 (ResolvedType_new ''foo[]'' 1)"
  have "typeName ?t1 = ''foo''" "typeName ?t2 = ''foo[]''"
    by (simp_all add: populate_keeps typeName_new)
  moreover have "rt_name ?t1 = ''foo''" "rt_name ?t2 = ''foo''"
    "\<not> isArray ?t1" "isArray ?t2" "rt_id ?t1 = 1" "rt_id ?t2 = 1"
    unfolding populate_keeps populate_keeps_flags n1 n2 by simp_all
  ultimately show "\<exists>t1 t2. rootNode (resolveType abi ''foo'') = Some t1
       \<and> rootNode (resolveType abi ''foo[]'') = Some t2
       \<and> typeName t1 = ''foo'' \<and> typeName t2 = ''foo[]''
       \<and> rt_name t1 = ''foo'' \<and> rt_name t2 = ''foo''
       \<and> \<not> isArray t1 \<and> isArray t2 \<and> rt_id t1 = 1 \<and> rt_id t2 = 1"
    using t1 t2 by blast
next
  from resolveType_total [of abi name] obtain r st where
    res: "resolveType abi name = Some (r, st)" by blast
  from resolveType_invariant(1) [OF res]
  have ids: "\<And>a. a < length (heap st) \<Longrightarrow> rt_id (heap st ! a) = Suc a"
    and keys: "\<And>k r. cache st k = Some r \<Longrightarrow>
        \<exists>a < length (heap st). r = Node a \<and> typeName (heap st ! a) = k"
    by (auto simp: consistent_def)
  have root: "r = Node 0 \<and> cache st name = Some (Node 0)" if "name \<notin> set objectPrototype"
  proof -
    from resolveType_root [OF that, of abi] res have "r = Node 0" by auto
    with resolveType_invariant(3) [OF res] show ?thesis by (simp add: answers_def)
  qed
  have kids: "\<exists>a. cache st c = Some (Node a)"
    if "t \<in> set (heap st)" "c \<in> set (childNames abi t)" "c \<notin> set objectPrototype" for t c
  proof -
    from resolveType_entries(2) [OF res] that(1) have "linked abi st t"
      by (simp add: list_all_iff)
    with that(2,3) have "cache st c \<noteq> None" by (auto simp: linked_def list_all_iff)
    then obtain r' where "cache st c = Some r'" by blast
    with keys [OF this] show ?thesis by blast
  qed
  have own: "cache st (typeName (heap st ! a)) = Some (Node a) \<and> rt_id (heap st ! a) = Suc a"
    if "a < length (heap st)" for a
    using resolveType_entries(1) [OF res] ids that by (simp add: indexed_def)
  have apart: "\<exists>a1 a2. r1 = Node a1 \<and> r2 = Node a2 \<and> a1 \<noteq> a2
          \<and> a1 < length (heap st) \<and> a2 < length (heap st)
          \<and> typeName (heap st ! a1) = k1 \<and> typeName (heap st ! a2) = k2
          \<and> rt_id (heap st ! a1) \<noteq> rt_id (heap st ! a2)"
    if "cache st k1 = Some r1 \<and> cache st k2 = Some r2 \<and> k1 \<noteq> k2" for k1 k2 r1 r2
  proof -
    from that keys [of k1 r1] keys [of k2 r2] obtain a1 a2 where
      a1: "a1 < length (heap st)" "r1 = Node a1" "typeName (heap st ! a1) = k1" and
      a2: "a2 < length (heap st)" "r2 = Node a2" "typeName (heap st ! a2) = k2"
      by blast
    from that a1(3) a2(3) have ne: "a1 \<noteq> a2" by auto
    with ids [OF a1(1)] ids [OF a2(1)] have "rt_id (heap st ! a1) \<noteq> rt_id (heap st ! a2)"
      by simp
    with a1 a2 ne show ?thesis by blast
  qed
  from res root kids own apart
  show "\<exists>r st. resolveType abi name = Some (r, st)
        \<and> (name \<notin> set objectPrototype \<longrightarrow> r = Node 0 \<and> cache st name = Some (Node 0))
        \<and> (\<forall>t \<in> set (heap st). \<forall>c \<in> set (childNames abi t).
              c \<notin> set objectPrototype \<longrightarrow> (\<exists>a. cache st c = Some (Node a)))
        \<and> (\<forall>a < length (heap st).
              cache st (typeName (heap st ! a)) = Some (Node a) \<and> rt_id (heap st ! a) = Suc a)
        \<and> (\<forall>k1 k2 r1 r2. cache st k1 = Some r1 \<and> cache st k2 = Some r2 \<and> k1 \<noteq> k2 \<longrightarrow>
             (\<exists>a1 a2. r1 = Node a1 \<and> r2 = Node a2 \<and> a1 \<noteq> a2
                \<and> a1 < length (heap st) \<and> a2 < length (heap st)
                \<and> typeName (heap st ! a1) = k1 \<and> typeName (heap st ! a2) = k2
                \<and> rt_id (heap st ! a1) \<noteq> rt_id (heap st ! a2)))"
    by (intro exI [of _ r] exI [of _ st] conjI allI ballI impI) blast+
qed

theorem resolveType_suffix_nodes_witness:
  "''pair'' \<notin> set objectPrototype \<and> ''foo'' \<notin> set objectPrototype
   \<and> ''foo[]'' \<notin> set objectPrototype
   \<and> map_option (\<lambda>x. (childNames exampleSuffixes (hd (heap (snd x))),
        cache (snd x) ''foo'', cache (snd x) ''foo[]'',
        map rt_id (heap (snd x)), map typeName (heap (snd x))))
     (resolveType exampleSuffixes ''pair'')
     = Some ([''foo'', ''foo[]''], Some (Node 1), Some (Node 2), [1, 2, 3],
             [''pair'', ''foo'', ''foo[]''])
   \<and> (\<exists>r st. resolveType exampleSuffixes ''pair'' = Some (r, st)
        \<and> r = Node 0 \<and> cache st ''pair'' = Some (Node 0)
        \<and> hd (heap st) \<in> set (heap st)
        \<and> ''foo'' \<in> set (childNames exampleSuffixes (hd (heap st)))
        \<and> ''foo[]'' \<in> set (childNames exampleSuffixes (hd (heap st)))
        \<and> (\<exists>a. cache st ''foo'' = Some (Node a))
        \<and> (\<exists>a. cache st ''foo[]'' = Some (Node a))
        \<and> cache st ''foo'' = Some (Node 1) \<and> cache st ''foo[]'' = Some (Node 2)
        \<and> ''foo'' \<noteq> ''foo[]''
        \<and> rt_id (heap st ! 1) \<noteq> rt_id (heap st ! 2))"
proof -
  have p0: "''pair'' \<notin> set objectPrototype" and p1: "''foo'' \<notin> set objectPrototype"
    and p2: "''foo[]'' \<notin> set objectPrototype" by code_simp+
  have a: "map_option (\<lambda>x. (childNames exampleSuffixes (hd (heap (snd x))),
        cache (snd x) ''foo'', cache (snd x) ''foo[]'',
        map rt_id (heap (snd x)), map typeName (heap (snd x))))
     (resolveType exampleSuffixes ''pair'')
     = Some ([''foo'', ''foo[]''], Some (Node 1), Some (Node 2), [1, 2, 3],
             [''pair'', ''foo'', ''foo[]''])"
    by code_simp
  from resolveType_suffix_nodes [of exampleSuffixes "''pair''"] obtain r st where
    res: "resolveType exampleSuffixes ''pair'' = Some (r, st)"
    and root: "''pair'' \<notin> set objectPrototype \<longrightarrow> r = Node 0 \<and> cache st ''pair'' = Some (Node 0)"
    and kids: "\<forall>t \<in> set (heap st). \<forall>c \<in> set (childNames exampleSuffixes t).
              c \<notin> set objectPrototype \<longrightarrow> (\<exists>a. cache st c = Some (Node a))"
    and sep: "\<forall>k1 k2 r1 r2. cache st k1 = Some r1 \<and> cache st k2 = Some r2 \<and> k1 \<noteq> k2 \<longrightarrow>
             (\<exists>a1 a2. r1 = Node a1 \<and> r2 = Node a2 \<and> a1 \<noteq> a2
                \<and> a1 < length (heap st) \<and> a2 < length (heap st)
                \<and> typeName (heap st ! a1) = k1 \<and> typeName (heap st ! a2) = k2
                \<and> rt_id (heap st ! a1) \<noteq> rt_id (heap st ! a2))"
    by blast
  from root p0 have r0: "r = Node 0" and c0: "cache st ''pair'' = Some (Node 0)" by simp_all
  from a res have names: "childNames exampleSuffixes (hd (heap st)) = [''foo'', ''foo[]'']"
    and c1: "cache st ''foo'' = Some (Node 1)" and c2: "cache st ''foo[]'' = Some (Node 2)"
    and tn: "map typeName (heap st) = [''pair'', ''foo'', ''foo[]'']"
    by simp_all
  from tn have "heap st \<noteq> []" by auto
  then have mem: "hd (heap st) \<in> set (heap st)" by simp
  from names have k1: "''foo'' \<in> set (childNames exampleSuffixes (hd (heap st)))"
    and k2: "''foo[]'' \<in> set (childNames exampleSuffixes (hd (heap st)))" by simp_all
  from kids mem k1 p1 have e1: "\<exists>a. cache st ''foo'' = Some (Node a)" by blast
  from kids mem k2 p2 have e2: "\<exists>a. cache st ''foo[]'' = Some (Node a)" by blast
  have ne: "''foo'' \<noteq> ''foo[]''" by simp
  from sep c1 c2 ne have "\<exists>a1 a2. Node 1 = Node a1 \<and> Node 2 = Node a2 \<and> a1 \<noteq> a2
                \<and> a1 < length (heap st) \<and> a2 < length (heap st)
                \<and> typeName (heap st ! a1) = ''foo'' \<and> typeName (heap st ! a2) = ''foo[]''
                \<and> rt_id (heap st ! a1) \<noteq> rt_id (heap st ! a2)"
    by blast
  then have ids: "rt_id (heap st ! 1) \<noteq> rt_id (heap st ! 2)" by auto
  from res r0 c0 mem k1 k2 e1 e2 c1 c2 ne ids
  have "\<exists>r st. resolveType exampleSuffixes ''pair'' = Some (r, st)
        \<and> r = Node 0 \<and> cache st ''pair'' = Some (Node 0)
        \<and> hd (heap st) \<in> set (heap st)
        \<and> ''foo'' \<in> set (childNames exampleSuffixes (hd (heap st)))
        \<and> ''foo[]'' \<in> set (childNames exampleSuffixes (hd (heap st)))
        \<and> (\<exists>a. cache st ''foo'' = Some (Node a))
        \<and> (\<exists>a. cache st ''foo[]'' = Some (Node a))
        \<and> cache st ''foo'' = Some (Node 1) \<and> cache st ''foo[]'' = Some (Node 2)
        \<and> ''foo'' \<noteq> ''foo[]''
        \<and> rt_id (heap st ! 1) \<noteq> rt_id (heap st ! 2)"
    by (intro exI [of _ r] exI [of _ st] conjI)
  with p0 p1 p2 a show ?thesis by (intro conjI)
qed

text \<open>
  Claim C6 as it was stated asks for different ids of the nodes that
  \<open>resolveType("foo")\<close> and \<open>resolveType("foo[]")\<close> return. Both calls start their counter
  at 0 and give their first node the id 1.
\<close>

theorem resolveType_same_id_counterexample:
  "map_option rt_id (rootNode (resolveType emptyABI ''foo'')) = Some 1
   \<and> map_option rt_id (rootNode (resolveType emptyABI ''foo[]'')) = Some 1
   \<and> \<not> map_option rt_id (rootNode (resolveType emptyABI ''foo''))
         \<noteq> map_option rt_id (rootNode (resolveType emptyABI ''foo[]''))"
  by code_simp

text \<open>
  Claim C7. Constructing a \<open>Variant\<close> from a pair of a tag and a payload sets
  \<open>variantIdx\<close> to the position of the first alternative whose rendered type name is the
  tag; that position is a valid index of the declared list. The constructor throws, the
  error \<open>Unknown variant\<close> followed by the tag, exactly when no alternative renders as the
  tag. For the alternatives \<open>int8\<close>, \<open>string\<close> the tag \<open>string\<close> gives index 1 and the tag
  \<open>bool\<close> the error (the witness).
\<close>

theorem Variant_new_index:
  "(tag \<in> set (map abiTypeString abiVariant) \<longrightarrow>
      (\<exists>i < length abiVariant.
         Variant_new abiTypeString abiVariant (tag, payload)
           = Inr \<lparr>variantValue = payload, variantIdx = int i\<rparr>
         \<and> abiTypeString (abiVariant ! i) = tag
         \<and> (\<forall>j < i. abiTypeString (abiVariant ! j) \<noteq> tag)))
   \<and> (tag \<notin> set (map abiTypeString abiVariant) \<longrightarrow>
        Variant_new abiTypeString abiVariant (tag, payload)
          = Inl (Error (''Unknown variant '' @ tag)))"
proof (intro conjI impI)
  assume "tag \<in> set (map abiTypeString abiVariant)"
  then show "\<exists>i < length abiVariant.
         Variant_new abiTypeString abiVariant (tag, payload)
           = Inr \<lparr>variantValue = payload, variantIdx = int i\<rparr>
         \<and> abiTypeString (abiVariant ! i) = tag
         \<and> (\<forall>j < i. abiTypeString (abiVariant ! j) \<noteq> tag)"
    by (rule Variant_new_found)
next
  assume "tag \<notin> set (map abiTypeString abiVariant)"
  then show "Variant_new abiTypeString abiVariant (tag, payload)
          = Inl (Error (''Unknown variant '' @ tag))"
    by (rule Variant_new_missing)
qed

theorem Variant_new_index_witness:
  "''string'' \<in> set (map (\<lambda>d. d) [''int8'', ''string''])
   \<and> Variant_new (\<lambda>d. d) [''int8'', ''string''] (''string'', True)
       = Inr \<lparr>variantValue = True, variantIdx = 1\<rparr>
   \<and> ''bool'' \<notin> set (map (\<lambda>d. d) [''int8'', ''string''])
   \<and> Variant_new (\<lambda>d. d) [''int8'', ''string''] (''bool'', True)
       = Inl (Error ''Unknown variant bool'')"
proof -
  let ?av = "[''int8'', ''string'']"
  have a: "''string'' \<in> set (map (\<lambda>d. d) ?av)" by simp
  have b: "''bool'' \<notin> set (map (\<lambda>d. d) ?av)" by simp
  have thm1: "\<exists>i < length ?av.
         Variant_new (\<lambda>d. d) ?av (''string'', True)
           = Inr \<lparr>variantValue = True, variantIdx = int i\<rparr>
         \<and> (\<lambda>d. d) (?av ! i) = ''string''
         \<and> (\<forall>j < i. (\<lambda>d. d) (?av ! j) \<noteq> ''string'')"
    using Variant_new_index [of "''string''" "\<lambda>d. d" ?av True] a by (rule conjunct1 [THEN mp])
  then obtain i where i: "i < length ?av"
     "Variant_new (\<lambda>d. d) ?av (''string'', True) = Inr \<lparr>variantValue = True, variantIdx = int i\<rparr>"
     "?av ! i = ''string''" by blast
  have "i = 1"
  proof (cases i)
    case 0
    with i(3) show ?thesis by simp
  next
    case (Suc k)
    with i(1) show ?thesis by simp
  qed
  with i(2) have c: "Variant_new (\<lambda>d. d) ?av (''string'', True)
       = Inr \<lparr>variantValue = True, variantIdx = 1\<rparr>" by simp
  have "Variant_new (\<lambda>d. d) ?av (''bool'', True) = Inl (Error (''Unknown variant '' @ ''bool''))"
    using Variant_new_index [of "''bool''" "\<lambda>d. d" ?av True] b by (rule conjunct2 [THEN mp])
  then have d: "Variant_new (\<lambda>d. d) ?av (''bool'', True) = Inl (Error ''Unknown variant bool'')"
    by simp
  from a b c d show ?thesis by (intro conjI)
qed

text \<open>
  Claim C8. For every tag that is the rendered name of a declared alternative,
  constructing with the tag succeeds and \<open>variantName\<close> of the result is the tag.
\<close>

theorem variantName_inverse:
  "tag \<in> set (map abiTypeString abiVariant) \<Longrightarrow>
   \<exists>v. Variant_new abiTypeString abiVariant (tag, payload) = Inr v
        \<and> variantName abiTypeString abiVariant v = Some tag"
proof -
  assume "tag \<in> set (map abiTypeString abiVariant)"
  from Variant_new_found [OF this, of payload]
  obtain v where v: "Variant_new abiTypeString abiVariant (tag, payload) = Inr v" by blast
  from variantName_new [OF v] v show ?thesis by blast
qed

theorem variantName_inverse_witness:
  "''int8'' \<in> set (map (\<lambda>d. d) [''int8'', ''string''])
   \<and> (\<exists>v. Variant_new (\<lambda>d. d) [''int8'', ''string''] (''int8'', False) = Inr v
          \<and> variantName (\<lambda>d. d) [''int8'', ''string''] v = Some ''int8'')"
proof -
  have a: "''int8'' \<in> set (map (\<lambda>d. d) [''int8'', ''string''])" by simp
  from variantName_inverse [OF a, of False] a show ?thesis by (intro conjI)
qed

text \<open>
  Claim C9. \<open>toJSON\<close> of a variant value is the array of two elements
  \<open>[variantName, value]\<close>: the tag string first, the payload second. For a value made by
  the constructor these are the tag and the payload it was made from.
\<close>

theorem toJSON_pair:
  "(variantName abiTypeString abiVariant v = Some n \<longrightarrow>
      toJSON abiTypeString abiVariant v = Some [JString n, JValue (variantValue v)])
   \<and> (Variant_new abiTypeString abiVariant (tag, payload) = Inr v \<longrightarrow>
        toJSON abiTypeString abiVariant v = Some [JString tag, JValue payload])"
proof (intro conjI impI)
  assume "variantName abiTypeString abiVariant v = Some n"
  then show "toJSON abiTypeString abiVariant v = Some [JString n, JValue (variantValue v)]"
    by (simp add: toJSON_def)
next
  assume "Variant_new abiTypeString abiVariant (tag, payload) = Inr v"
  from variantName_new [OF this]
  show "toJSON abiTypeString abiVariant v = Some [JString tag, JValue payload]"
    by (simp add: toJSON_def)
qed

theorem toJSON_pair_witness:
  "Variant_new (\<lambda>d. d) [''int8'', ''string''] (''string'', True)
     = Inr \<lparr>variantValue = True, variantIdx = 1\<rparr>
   \<and> variantName (\<lambda>d. d) [''int8'', ''string''] \<lparr>variantValue = True, variantIdx = 1\<rparr>
       = Some ''string''
   \<and> toJSON (\<lambda>d. d) [''int8'', ''string''] \<lparr>variantValue = True, variantIdx = 1\<rparr>
       = Some [JString ''string'', JValue True]"
proof -
  let ?v = "\<lparr>variantValue = True, variantIdx = 1\<rparr>"
  have a: "Variant_new (\<lambda>d. d) [''int8'', ''string''] (''string'', True) = Inr ?v"
    by (simp add: Variant_new_def)
  have b: "variantName (\<lambda>d. d) [''int8'', ''string''] ?v = Some ''string''"
    by (simp add: variantName_def)
  have "toJSON (\<lambda>d. d) [''int8'', ''string''] ?v = Some [JString ''string'', JValue True]"
    using toJSON_pair [of "\<lambda>d. d" "[''int8'', ''string'']" ?v "''string''" "''string''" True] a
    by (rule conjunct2 [THEN mp])
  with a b show ?thesis by (intro conjI)
qed

text \<open>
  Claim C10. For every string \<open>s\<close>, also one with the markers out of their canonical
  order, the \<open>typeName\<close> of the \<open>ResolvedType\<close> constructed from \<open>s\<close> is \<open>s\<close>. So the key
  under which \<open>resolve\<close> registers a new node is the requested name, and after a pass
  every entry of the cache refers to a node whose \<open>typeName\<close> is the entry's key.
\<close>

theorem typeName_roundtrip:
  "typeName (ResolvedType_new s i) = s
   \<and> cache (register s st) = (cache st)(s \<mapsto> Node (length (heap st)))
   \<and> (\<exists>r st'. resolveType abi s = Some (r, st') \<and> answers st' s r
        \<and> (\<forall>k r'. cache st' k = Some r' \<longrightarrow>
              (\<exists>a < length (heap st'). r' = Node a \<and> typeName (heap st' ! a) = k)))"
proof (intro conjI)
  show "typeName (ResolvedType_new s i) = s" by (rule typeName_new)
next
  show "cache (register s st) = (cache st)(s \<mapsto> Node (length (heap st)))"
    by (rule register_cache)
next
  from resolveType_total [of abi s] obtain r st' where
    res: "resolveType abi s = Some (r, st')" by blast
  from resolveType_invariant(1) [OF res]
  have "\<forall>k r'. cache st' k = Some r' \<longrightarrow>
      (\<exists>a < length (heap st'). r' = Node a \<and> typeName (heap st' ! a) = k)"
    by (simp add: consistent_def)
  with res resolveType_invariant(3) [OF res]
  show "\<exists>r st'. resolveType abi s = Some (r, st') \<and> answers st' s r
        \<and> (\<forall>k r'. cache st' k = Some r' \<longrightarrow>
              (\<exists>a < length (heap st'). r' = Node a \<and> typeName (heap st' ! a) = k))"
    by blast
qed

theorem typeName_roundtrip_witness:
  "ResolvedType_new ''foo$?'' 0
     = \<lparr>rt_name = ''foo$'', rt_id = 0, isArray = False, isOptional = True,
        isExtension = False, rt_fields = None, rt_variant = None, rt_ref = None\<rparr>
   \<and> typeName (ResolvedType_new ''foo$?'' 0) = ''foo$?''
   \<and> map_option (\<lambda>x. cache (snd x) ''foo$?'') (resolveType emptyABI ''foo$?'')
       = Some (Some (Node 0))
   \<and> (\<exists>r st'. resolveType emptyABI ''foo$?'' = Some (r, st')
        \<and> cache st' ''foo$?'' = Some (Node 0) \<and> typeName (heap st' ! 0) = ''foo$?'')"
proof -
  have a: "ResolvedType_new ''foo$?'' 0
     = \<lparr>rt_name = ''foo$'', rt_id = 0, isArray = False, isOptional = True,
        isExtension = False, rt_fields = None, rt_variant = None, rt_ref = None\<rparr>"
    by code_simp
  have b: "map_option (\<lambda>x. cache (snd x) ''foo$?'') (resolveType emptyABI ''foo$?'')
       = Some (Some (Node 0))" by code_simp
  note t = typeName_roundtrip [of "''foo$?''" 0 newPass emptyABI]
  from t have c: "typeName (ResolvedType_new ''foo$?'' 0) = ''foo$?''" by (rule conjunct1)
  from t obtain r st' where res: "resolveType emptyABI ''foo$?'' = Some (r, st')"
    and keys: "\<forall>k r'. cache st' k = Some r' \<longrightarrow>
              (\<exists>a < length (heap st'). r' = Node a \<and> typeName (heap st' ! a) = k)"
    by blast
  from b res have own: "cache st' ''foo$?'' = Some (Node 0)" by simp
  with keys have "\<exists>a < length (heap st'). Node 0 = Node a \<and> typeName (heap st' ! a) = ''foo$?''"
    by blast
  then have "typeName (heap st' ! 0) = ''foo$?''" by auto
  with res own have d: "\<exists>r st'. resolveType emptyABI ''foo$?'' = Some (r, st')
        \<and> cache st' ''foo$?'' = Some (Node 0) \<and> typeName (heap st' ! 0) = ''foo$?''"
    by blast
  from a c b d show ?thesis by (intro conjI)
qed

end
